theory Spec2Isabelle
  imports Complex_Main "HOL-Library.Char_ord" "HOL-Library.List_Lexorder" "HOL-Library.Multiset"
begin

section \<open>kover: scene parsing, validation and queries (src/src/kover.c)\<close>

text \<open>
  A shallow embedding of \<^verbatim>\<open>kover.c\<close>. C strings are modelled as \<open>string\<close> (the bytes
  before the terminating NUL); \<^verbatim>\<open>int\<close> values are modelled as \<open>int\<close> with the 32-bit
  two's complement wrap-around written out (\<open>int32\<close>); the fixed-size arrays of the scene
  are lists in insertion order; a function that prints one diagnostic and returns
  \<^verbatim>\<open>false\<close> returns the corresponding \<open>error\<close> value, whose exact text on the error
  channel is \<open>error_message\<close>.
\<close>

subsection \<open>Constants\<close>

definition MAX_LINE_LENGTH :: nat where "MAX_LINE_LENGTH = 51"
definition MAX_BUILDINGS :: nat where "MAX_BUILDINGS = 100"
definition MAX_ANTENNAS :: nat where "MAX_ANTENNAS = 100"

definition INT_MAX :: int where "INT_MAX = 2147483647"
definition INT_MIN :: int where "INT_MIN = - 2147483648"

subsection \<open>Characters (ctype.h in the C locale)\<close>

definition isdigit :: "char \<Rightarrow> bool" where
  "isdigit c \<longleftrightarrow> c \<in> set ''0123456789''"

definition isalpha :: "char \<Rightarrow> bool" where
  "isalpha c \<longleftrightarrow> c \<in> set ''abcdefghijklmnopqrstuvwxyzABCDEFGHIJKLMNOPQRSTUVWXYZ''"

definition isalnum :: "char \<Rightarrow> bool" where
  "isalnum c \<longleftrightarrow> isalpha c \<or> isdigit c"

text \<open>\<^verbatim>\<open>isspace\<close>: space, \<^verbatim>\<open>\t\<close>, \<^verbatim>\<open>\n\<close>, \<^verbatim>\<open>\v\<close>, \<^verbatim>\<open>\f\<close>, \<^verbatim>\<open>\r\<close>.\<close>

definition isspace :: "char \<Rightarrow> bool" where
  "isspace c \<longleftrightarrow> c \<in> {CHR '' '', CHR 0x09, CHR 0x0A, CHR 0x0B, CHR 0x0C, CHR 0x0D}"

subsection \<open>Machine integers\<close>

text \<open>The value of a 32-bit \<^verbatim>\<open>int\<close> after wrap-around.\<close>

definition int32 :: "int \<Rightarrow> int" where
  "int32 k = (k + 2147483648) mod 4294967296 - 2147483648"

definition c_add :: "int \<Rightarrow> int \<Rightarrow> int" where
  "c_add a b = int32 (a + b)"

definition c_sub :: "int \<Rightarrow> int \<Rightarrow> int" where
  "c_sub a b = int32 (a - b)"

definition representable :: "int \<Rightarrow> bool" where
  "representable k \<longleftrightarrow> INT_MIN \<le> k \<and> k \<le> INT_MAX"

subsection \<open>Lexical validators\<close>

definition is_blank :: "char \<Rightarrow> bool" where
  "is_blank c \<longleftrightarrow> c = CHR '' '' \<or> c = CHR 0x09"

definition is_valid_id_char :: "char \<Rightarrow> bool \<Rightarrow> bool" where
  "is_valid_id_char c first =
     (if first then isalpha c \<or> c = CHR ''_'' else isalnum c \<or> c = CHR ''_'')"

fun is_valid_id :: "string \<Rightarrow> bool" where
  "is_valid_id [] = False"
| "is_valid_id (c # cs) =
     (if \<not> is_valid_id_char c True then False
      else list_all (\<lambda>d. is_valid_id_char d False) cs)"

fun is_valid_integer :: "string \<Rightarrow> bool" where
  "is_valid_integer [] = False"
| "is_valid_integer (c # cs) =
     (if c = CHR ''0'' \<and> cs \<noteq> [] then False
      else let start = (if c = CHR ''-'' then 1 else 0 :: nat) in
        if start = 1 \<and> cs = [] then False
        else list_all isdigit (drop start (c # cs)))"

fun is_valid_positive_integer :: "string \<Rightarrow> bool" where
  "is_valid_positive_integer [] = False"
| "is_valid_positive_integer (c # cs) =
     (if c = CHR ''-'' \<or> c = CHR ''0'' then False
      else list_all isdigit (c # cs))"

subsection \<open>Data structures\<close>

record Building =
  b_id :: string
  b_x :: int
  b_y :: int
  b_w :: int
  b_h :: int

record Antenna =
  a_id :: string
  a_x :: int
  a_y :: int
  a_r :: int

text \<open>
  \<^verbatim>\<open>num_buildings\<close> and \<^verbatim>\<open>num_antennas\<close> are the lengths of the lists. The C arrays
  hold at most \<open>MAX_BUILDINGS\<close> and \<open>MAX_ANTENNAS\<close> elements and the code never checks
  that bound: a store into a full array is undefined behaviour, which the model does
  not describe.
\<close>

record Scene =
  buildings :: "Building list"
  antennas :: "Antenna list"

definition init_scene :: Scene where
  "init_scene = \<lparr>buildings = [], antennas = []\<rparr>"

subsection \<open>Library functions: strcmp, atoi, sscanf, the rendering of \<^verbatim>\<open>%d\<close>\<close>

text \<open>
  \<^verbatim>\<open>strcmp\<close> compares byte-wise as \<^verbatim>\<open>unsigned char\<close>; the C standard fixes the sign of
  the result only, which is what the model returns. The terminating NUL is smaller than
  every byte of a string.
\<close>

fun strcmp :: "string \<Rightarrow> string \<Rightarrow> int" where
  "strcmp [] [] = 0"
| "strcmp [] (b # bs) = - 1"
| "strcmp (a # as) [] = 1"
| "strcmp (a # as) (b # bs) =
     (if a = b then strcmp as bs
      else if (of_char a :: nat) < of_char b then - 1 else 1)"

definition digit_char :: "nat \<Rightarrow> char" where
  "digit_char d = char_of (48 + d)"

function show_nat :: "nat \<Rightarrow> string" where
  "show_nat n = (if n < 10 then [digit_char n] else show_nat (n div 10) @ [digit_char (n mod 10)])"
  by pat_completeness auto
termination
  by (relation "measure id") auto

declare show_nat.simps [simp del]

text \<open>What \<^verbatim>\<open>printf("%d", i)\<close> writes.\<close>

definition show_int :: "int \<Rightarrow> string" where
  "show_int i = (if i < 0 then CHR ''-'' # show_nat (nat (- i)) else show_nat (nat i))"

definition digit_val :: "char \<Rightarrow> int" where
  "digit_val c = int (of_char c) - 48"

definition dec_val :: "string \<Rightarrow> int" where
  "dec_val ds = foldl (\<lambda>acc c. 10 * acc + digit_val c) 0 ds"

text \<open>
  \<^verbatim>\<open>atoi\<close>: leading white space, an optional sign, then the longest run of digits. glibc
  computes \<^verbatim>\<open>(int) strtol(s, NULL, 10)\<close>; on the tokens of at most 10 characters that
  reach it here the \<^verbatim>\<open>long\<close> never saturates, and the conversion to \<^verbatim>\<open>int\<close> wraps.
\<close>

definition atoi :: "string \<Rightarrow> int" where
  "atoi s =
     (case dropWhile isspace s of
        [] \<Rightarrow> 0
      | c # cs \<Rightarrow>
          if c = CHR ''-'' then int32 (- dec_val (takeWhile isdigit cs))
          else if c = CHR ''+'' then int32 (dec_val (takeWhile isdigit cs))
          else int32 (dec_val (takeWhile isdigit (c # cs))))"

text \<open>
  \<^verbatim>\<open>sscanf\<close>, for the directives the program uses: white space in the format (\<open>WS\<close>)
  skips any run of white space; an ordinary character (\<open>Lit\<close>) must match the next
  input character; \<^verbatim>\<open>%Ns\<close> (\<open>Str N\<close>) skips white space and stores at most \<open>N\<close>
  characters up to the next white space. The result is the number of fields stored,
  or \<^verbatim>\<open>EOF\<close> (\<open>- 1\<close>) when the input ends before the first field is stored, together
  with the stored fields.
\<close>

datatype directive = WS | Lit char | Str nat

definition EOF :: int where "EOF = - 1"

definition input_failure :: "string list \<Rightarrow> int" where
  "input_failure acc = (if acc = [] then EOF else int (length acc))"

fun sscanf :: "string \<Rightarrow> directive list \<Rightarrow> string list \<Rightarrow> int \<times> string list" where
  "sscanf inp [] acc = (int (length acc), acc)"
| "sscanf inp (WS # ds) acc = sscanf (dropWhile isspace inp) ds acc"
| "sscanf inp (Lit c # ds) acc =
     (case inp of
        [] \<Rightarrow> (input_failure acc, acc)
      | x # xs \<Rightarrow> if x = c then sscanf xs ds acc else (int (length acc), acc))"
| "sscanf inp (Str n # ds) acc =
     (case dropWhile isspace inp of
        [] \<Rightarrow> (input_failure acc, acc)
      | x # xs \<Rightarrow>
          let tok = take n (takeWhile (\<lambda>c. \<not> isspace c) (x # xs))
          in sscanf (drop (length tok) (x # xs)) ds (acc @ [tok]))"

subsection \<open>Scene markers\<close>

definition is_begin_scene :: "string \<Rightarrow> bool" where
  "is_begin_scene line \<longleftrightarrow> strcmp line ''begin scene'' = 0"

definition is_end_scene :: "string \<Rightarrow> bool" where
  "is_end_scene line \<longleftrightarrow> strcmp line ''end scene'' = 0"

subsection \<open>Diagnostics\<close>

text \<open>
  One constructor per \<^verbatim>\<open>fprintf(stderr, ...)\<close> that precedes a \<^verbatim>\<open>return false\<close> under
  \<^verbatim>\<open>read_scene\<close>, and \<open>NoFirstLine\<close> for the return at the first \<^verbatim>\<open>fgets\<close>, which
  prints nothing. The line counter is a C \<^verbatim>\<open>int\<close>; the model counts in \<open>int\<close> and
  does not describe streams of \<open>2^31\<close> lines or more.
\<close>

datatype error =
    UnrecognizedLine int
  | MalformedBuildingLine int
  | MalformedAntennaLine int
  | InvalidIdentifier string int
  | InvalidInteger string int
  | InvalidPositiveInteger string int
  | DuplicateBuildingId string
  | DuplicateAntennaId string
  | Overlap string string
  | SamePosition string string
  | MissingStartMarker
  | MissingEndMarker
  | NoFirstLine

fun error_message :: "error \<Rightarrow> string" where
  "error_message (UnrecognizedLine n) =
     ''error: unrecognized line (line #'' @ show_int n @ '')'' @ [CHR 0x0A]"
| "error_message (MalformedBuildingLine n) =
     ''error: building line has wrong number of arguments (line #'' @ show_int n @ '')'' @ [CHR 0x0A]"
| "error_message (MalformedAntennaLine n) =
     ''error: antenna line has wrong number of arguments (line #'' @ show_int n @ '')'' @ [CHR 0x0A]"
| "error_message (InvalidIdentifier t n) =
     ''error: invalid identifier '' @ [CHR 0x22] @ t @ [CHR 0x22] @ '' (line #'' @ show_int n @ '')'' @ [CHR 0x0A]"
| "error_message (InvalidInteger t n) =
     ''error: invalid integer '' @ [CHR 0x22] @ t @ [CHR 0x22] @ '' (line #'' @ show_int n @ '')'' @ [CHR 0x0A]"
| "error_message (InvalidPositiveInteger t n) =
     ''error: invalid positive integer '' @ [CHR 0x22] @ t @ [CHR 0x22] @ '' (line #'' @ show_int n @ '')'' @ [CHR 0x0A]"
| "error_message (DuplicateBuildingId i) =
     ''error: building identifier '' @ i @ '' is non unique'' @ [CHR 0x0A]"
| "error_message (DuplicateAntennaId i) =
     ''error: antenna identifier '' @ i @ '' is non unique'' @ [CHR 0x0A]"
| "error_message (Overlap i j) =
     ''error: buildings '' @ i @ '' and '' @ j @ '' are overlapping'' @ [CHR 0x0A]"
| "error_message (SamePosition i j) =
     ''error: antennas '' @ i @ '' and '' @ j @ '' have the same position'' @ [CHR 0x0A]"
| "error_message MissingStartMarker =
     ''error: first line must be exactly '' @ [CHR 0x27] @ ''begin scene'' @ [CHR 0x27, CHR 0x0A]"
| "error_message MissingEndMarker =
     ''error: last line must be exactly '' @ [CHR 0x27] @ ''end scene'' @ [CHR 0x27, CHR 0x0A]"
| "error_message NoFirstLine = []"

subsection \<open>Scene and building validation\<close>

definition buildings_overlap :: "Building \<Rightarrow> Building \<Rightarrow> bool" where
  "buildings_overlap b1 b2 \<longleftrightarrow>
     \<not> (c_add (b_x b1) (b_w b1) \<le> c_sub (b_x b2) (b_w b2) \<or>
        c_sub (b_x b1) (b_w b1) \<ge> c_add (b_x b2) (b_w b2) \<or>
        c_add (b_y b1) (b_h b1) \<le> c_sub (b_y b2) (b_h b2) \<or>
        c_sub (b_y b1) (b_h b1) \<ge> c_add (b_y b2) (b_h b2))"

definition is_duplicate_building_id :: "Scene \<Rightarrow> string \<Rightarrow> bool" where
  "is_duplicate_building_id scene i = list_ex (\<lambda>b. strcmp (b_id b) i = 0) (buildings scene)"

definition is_duplicate_antenna_id :: "Scene \<Rightarrow> string \<Rightarrow> bool" where
  "is_duplicate_antenna_id scene i = list_ex (\<lambda>a. strcmp (a_id a) i = 0) (antennas scene)"

definition has_same_position :: "Antenna \<Rightarrow> Antenna \<Rightarrow> bool" where
  "has_same_position a1 a2 \<longleftrightarrow> a_x a1 = a_x a2 \<and> a_y a1 = a_y a2"

text \<open>
  The two nested loops of \<^verbatim>\<open>check_antenna_positions\<close>: the inner one runs over the
  antennas after \<open>a\<close> (\<open>j = i + 1 ..\<close>), the outer one over every antenna in turn. The
  result is the pair of identifiers copied to \<^verbatim>\<open>id1\<close> and \<^verbatim>\<open>id2\<close>.
\<close>

fun check_antenna_positions_inner :: "Antenna \<Rightarrow> Antenna list \<Rightarrow> (string \<times> string) option" where
  "check_antenna_positions_inner a [] = None"
| "check_antenna_positions_inner a (b # bs) =
     (if has_same_position a b then Some (a_id a, a_id b)
      else check_antenna_positions_inner a bs)"

fun check_antenna_positions_outer :: "Antenna list \<Rightarrow> (string \<times> string) option" where
  "check_antenna_positions_outer [] = None"
| "check_antenna_positions_outer (a # as) =
     (case check_antenna_positions_inner a as of
        Some p \<Rightarrow> Some p
      | None \<Rightarrow> check_antenna_positions_outer as)"

definition check_antenna_positions :: "Scene \<Rightarrow> (string \<times> string) option" where
  "check_antenna_positions scene = check_antenna_positions_outer (antennas scene)"

subsection \<open>Parsing\<close>

definition building_format :: "directive list" where
  "building_format =
     WS # map Lit ''building'' @ [WS, Str 10, WS, Str 10, WS, Str 10, WS, Str 10, WS, Str 10, WS]"

definition antenna_format :: "directive list" where
  "antenna_format =
     WS # map Lit ''antenna'' @ [WS, Str 10, WS, Str 10, WS, Str 10, WS, Str 10, WS]"

definition parse_building_line :: "string \<Rightarrow> int \<Rightarrow> error + Building" where
  "parse_building_line line line_num =
     (let (n, args) = sscanf line building_format [] in
      if n \<noteq> 5 then Inl (MalformedBuildingLine line_num)
      else
        let i = args ! 0; x_str = args ! 1; y_str = args ! 2; w_str = args ! 3; h_str = args ! 4 in
        if \<not> is_valid_id i then Inl (InvalidIdentifier i line_num)
        else if \<not> is_valid_integer x_str then Inl (InvalidInteger x_str line_num)
        else if \<not> is_valid_integer y_str then Inl (InvalidInteger y_str line_num)
        else if \<not> is_valid_positive_integer w_str then Inl (InvalidPositiveInteger w_str line_num)
        else if \<not> is_valid_positive_integer h_str then Inl (InvalidPositiveInteger h_str line_num)
        else Inr \<lparr>b_id = i, b_x = atoi x_str, b_y = atoi y_str, b_w = atoi w_str, b_h = atoi h_str\<rparr>)"

definition parse_antenna_line :: "string \<Rightarrow> int \<Rightarrow> error + Antenna" where
  "parse_antenna_line line line_num =
     (let (n, args) = sscanf line antenna_format [] in
      if n \<noteq> 4 then Inl (MalformedAntennaLine line_num)
      else
        let i = args ! 0; x_str = args ! 1; y_str = args ! 2; r_str = args ! 3 in
        if \<not> is_valid_id i then Inl (InvalidIdentifier i line_num)
        else if \<not> is_valid_integer x_str then Inl (InvalidInteger x_str line_num)
        else if \<not> is_valid_integer y_str then Inl (InvalidInteger y_str line_num)
        else if \<not> is_valid_positive_integer r_str then Inl (InvalidPositiveInteger r_str line_num)
        else Inr \<lparr>a_id = i, a_x = atoi x_str, a_y = atoi y_str, a_r = atoi r_str\<rparr>)"

subsection \<open>Scene processing\<close>

text \<open>
  The functions that take a \<^verbatim>\<open>Scene*\<close> return the scene as they leave it together with
  \<open>None\<close> for \<^verbatim>\<open>true\<close> or \<open>Some e\<close> for \<^verbatim>\<open>false\<close> after printing \<open>e\<close>.
  \<open>add_building\<close> and \<open>add_antenna\<close> are the parts of \<^verbatim>\<open>process_building\<close> and
  \<^verbatim>\<open>process_antenna\<close> that follow the parsing of the line.
\<close>

definition add_building :: "Scene \<Rightarrow> Building \<Rightarrow> error option \<times> Scene" where
  "add_building scene building =
     (if is_duplicate_building_id scene (b_id building)
      then (Some (DuplicateBuildingId (b_id building)), scene)
      else
        case find (\<lambda>b. buildings_overlap b building) (buildings scene) of
          Some b \<Rightarrow> (Some (Overlap (b_id b) (b_id building)), scene)
        | None \<Rightarrow> (None, scene\<lparr>buildings := buildings scene @ [building]\<rparr>))"

definition process_building :: "Scene \<Rightarrow> string \<Rightarrow> int \<Rightarrow> error option \<times> Scene" where
  "process_building scene line line_num =
     (case parse_building_line line line_num of
        Inl e \<Rightarrow> (Some e, scene)
      | Inr building \<Rightarrow> add_building scene building)"

definition add_antenna :: "Scene \<Rightarrow> Antenna \<Rightarrow> error option \<times> Scene" where
  "add_antenna scene antenna =
     (if is_duplicate_antenna_id scene (a_id antenna)
      then (Some (DuplicateAntennaId (a_id antenna)), scene)
      else
        let scene' = scene\<lparr>antennas := antennas scene @ [antenna]\<rparr> in
        case check_antenna_positions scene' of
          Some (id1, id2) \<Rightarrow> (Some (SamePosition id1 id2), scene')
        | None \<Rightarrow> (None, scene'))"

definition process_antenna :: "Scene \<Rightarrow> string \<Rightarrow> int \<Rightarrow> error option \<times> Scene" where
  "process_antenna scene line line_num =
     (case parse_antenna_line line line_num of
        Inl e \<Rightarrow> (Some e, scene)
      | Inr antenna \<Rightarrow> add_antenna scene antenna)"

definition process_line :: "Scene \<Rightarrow> string \<Rightarrow> int \<Rightarrow> error option \<times> Scene" where
  "process_line scene line line_num =
     (let (n, args) = sscanf line [WS, Str 10, WS] [] in
      if n \<noteq> 1 then (Some (UnrecognizedLine line_num), scene)
      else
        let type = args ! 0 in
        if strcmp type ''building'' = 0 then process_building scene line line_num
        else if strcmp type ''antenna'' = 0 then process_antenna scene line line_num
        else (Some (UnrecognizedLine line_num), scene))"

subsection \<open>Reading the stream\<close>

text \<open>
  \<^verbatim>\<open>fgets(line, n, stdin)\<close> on the unread part of the stream: \<open>None\<close> for \<^verbatim>\<open>NULL\<close>
  (nothing left to read), otherwise the bytes stored (at most \<open>n - 1\<close>, ending with
  the first newline if it comes that early) and the part of the stream still unread.
\<close>

definition fgets :: "nat \<Rightarrow> string \<Rightarrow> (string \<times> string) option" where
  "fgets n inp =
     (if inp = [] then None
      else
        let ln = takeWhile (\<lambda>c. c \<noteq> CHR 0x0A) inp;
            full = (if length ln < length inp then ln @ [CHR 0x0A] else ln);
            buf = take (n - 1) full
        in Some (buf, drop (length buf) inp))"

text \<open>The buffer read as a C string ends at its first NUL byte.\<close>

definition c_str :: "string \<Rightarrow> string" where
  "c_str buf = takeWhile (\<lambda>c. c \<noteq> CHR 0x00) buf"

text \<open>\<^verbatim>\<open>line[strcspn(line, "\n")] = 0\<close>\<close>

definition strip_newline :: "string \<Rightarrow> string" where
  "strip_newline line = takeWhile (\<lambda>c. c \<noteq> CHR 0x0A) line"

text \<open>The \<^verbatim>\<open>while\<close> loop of \<^verbatim>\<open>read_scene\<close>; the third component is the unread stream.\<close>

function read_lines :: "Scene \<Rightarrow> int \<Rightarrow> string \<Rightarrow> error option \<times> Scene \<times> string" where
  "read_lines scene line_num inp =
     (case fgets MAX_LINE_LENGTH inp of
        None \<Rightarrow> (Some MissingEndMarker, scene, inp)
      | Some (buf, rest) \<Rightarrow>
          let line = strip_newline (c_str buf) in
          if is_end_scene line then (None, scene, rest)
          else
            (case process_line scene line (line_num + 1) of
               (Some e, scene') \<Rightarrow> (Some e, scene', rest)
             | (None, scene') \<Rightarrow> read_lines scene' (line_num + 1) rest))"
  by pat_completeness auto
termination
proof (relation "measure (\<lambda>(scene, line_num, inp). length inp)")
  show "wf (measure (\<lambda>(scene, line_num, inp). length inp))" by simp
next
  fix scene :: Scene and line_num :: int and inp buf rest :: string
  fix x2 xa x1 x2a scene' e
  assume a: "fgets MAX_LINE_LENGTH inp = Some x2" "(buf, rest) = x2"
  then have ne: "inp \<noteq> []" by (auto simp: fgets_def)
  define ln where "ln = takeWhile (\<lambda>c. c \<noteq> CHR 0x0A) inp"
  define full where "full = (if length ln < length inp then ln @ [CHR 0x0A] else ln)"
  have "full \<noteq> []"
    using ne by (cases ln) (auto simp: full_def)
  then have "take 50 full \<noteq> []" by (cases full) auto
  moreover have "buf = take 50 full" "rest = drop (length buf) inp"
    using a ne by (auto simp: fgets_def MAX_LINE_LENGTH_def Let_def ln_def full_def)
  ultimately have "length rest < length inp" using ne by (cases buf) auto
  then show "((scene', line_num + 1, rest), scene, line_num, inp)
       \<in> measure (\<lambda>(scene, line_num, inp). length inp)" by simp
qed

declare read_lines.simps [simp del]

definition read_scene :: "Scene \<Rightarrow> string \<Rightarrow> error option \<times> Scene \<times> string" where
  "read_scene scene inp =
     (case fgets MAX_LINE_LENGTH inp of
        None \<Rightarrow> (Some NoFirstLine, scene, inp)
      | Some (buf, rest) \<Rightarrow>
          let line = strip_newline (c_str buf) in
          if \<not> is_begin_scene line then (Some MissingStartMarker, scene, rest)
          else read_lines scene 1 rest)"

subsection \<open>Scene computation\<close>





subsection \<open>Output\<close>











subsection \<open>Geometry of a building, for the statements about overlap\<close>

text \<open>
  The four edges \<open>x - w\<close>, \<open>x + w\<close>, \<open>y - h\<close>, \<open>y + h\<close> of a building fit in an
  \<^verbatim>\<open>int\<close>: the additions and subtractions of the C code do not overflow.
\<close>

definition edges_representable :: "Building \<Rightarrow> bool" where
  "edges_representable b \<longleftrightarrow>
     representable (b_x b - b_w b) \<and> representable (b_x b + b_w b) \<and>
     representable (b_y b - b_h b) \<and> representable (b_y b + b_h b)"

text \<open>The point \<open>(px, py)\<close> of the plane lies strictly inside the rectangle of the building.\<close>

definition in_interior :: "Building \<Rightarrow> real \<Rightarrow> real \<Rightarrow> bool" where
  "in_interior b px py \<longleftrightarrow>
     real_of_int (b_x b - b_w b) < px \<and> px < real_of_int (b_x b + b_w b) \<and>
     real_of_int (b_y b - b_h b) < py \<and> py < real_of_int (b_y b + b_h b)"

subsection \<open>Extents of a scene, for the statements about the bounding box\<close>






subsection \<open>The stream as a sequence of lines, for the statements about the reader\<close>



subsection \<open>Validated scenes\<close>

text \<open>No two buildings share their identifier, and no two antennas do.\<close>

definition distinct_ids :: "Scene \<Rightarrow> bool" where
  "distinct_ids scene \<longleftrightarrow>
     distinct (map b_id (buildings scene)) \<and> distinct (map a_id (antennas scene))"

subsection \<open>Fields of a format, for the statements about token counts\<close>

text \<open>The number of \<^verbatim>\<open>%s\<close> conversions in a format.\<close>

fun count_fields :: "directive list \<Rightarrow> nat" where
  "count_fields [] = 0"
| "count_fields (Str n # ds) = Suc (count_fields ds)"
| "count_fields (d # ds) = count_fields ds"

subsection \<open>Text streams, for the statements about the reader\<close>


definition text_of :: "string list \<Rightarrow> string" where
  "text_of ls = concat (map (\<lambda>l. l @ [CHR 0x0A]) ls)"


section \<open>Properties\<close>

subsection \<open>String comparison\<close>

text \<open>\<^verbatim>\<open>strcmp\<close> returns 0 exactly on equal strings.\<close>

lemma strcmp_eq_0_iff: "strcmp a b = 0 \<longleftrightarrow> a = b"
  by (induction a b rule: strcmp.induct) auto

subsection \<open>The integer validator\<close>

lemma is_valid_integer_iff:
  "is_valid_integer s \<longleftrightarrow>
     s = ''0'' \<or>
     (\<exists>c cs. s = c # cs \<and> isdigit c \<and> c \<noteq> CHR ''0'' \<and> list_all isdigit cs) \<or>
     (\<exists>ds. s = CHR ''-'' # ds \<and> ds \<noteq> [] \<and> list_all isdigit ds)"
proof (cases s)
  case Nil
  then show ?thesis by simp
next
  case (Cons c cs)
  have d0: "isdigit (CHR ''0'')" and dm: "\<not> isdigit (CHR ''-'')"
    by (simp_all add: isdigit_def)
  show ?thesis
    using Cons d0 dm by (cases "c = CHR ''0''"; cases "c = CHR ''-''"; cases "cs = []") auto
qed

text \<open>
  C1. The validator rejects a leading zero only at the first character of the string:
  after a minus sign any non-empty run of digits is accepted, so \<open>-01\<close>, \<open>-0\<close> and
  \<open>-007\<close> are valid integers for the code while \<open>01\<close>, \<open>00\<close> and \<open>007\<close> are not.
\<close>

theorem is_valid_integer_negative_leading_zero:
  "is_valid_integer ''-01'' \<and> is_valid_integer ''-0'' \<and> is_valid_integer ''-007'' \<and>
   \<not> is_valid_integer ''01'' \<and> \<not> is_valid_integer ''00'' \<and> \<not> is_valid_integer ''007''"
  by (simp add: isdigit_def)

subsection \<open>Token counts\<close>

text \<open>
  C2. \<^verbatim>\<open>sscanf\<close> stops at the end of its format: what follows the last field on the
  line is never looked at. The line \<open>building b1 0 0 1 1 extra\<close> is parsed as the
  building \<open>b1\<close>, an antenna line with a fifth token is parsed as an antenna, and the
  stream of scenario 5 is read without any error.
\<close>

theorem parse_building_line_extra_token:
  "parse_building_line ''building b1 0 0 1 1 extra'' 2 =
     Inr \<lparr>b_id = ''b1'', b_x = 0, b_y = 0, b_w = 1, b_h = 1\<rparr> \<and>
   parse_antenna_line ''antenna a1 0 0 1 extra'' 2 =
     Inr \<lparr>a_id = ''a1'', a_x = 0, a_y = 0, a_r = 1\<rparr> \<and>
   read_scene init_scene
     (''begin scene'' @ [CHR 0x0A] @ ''building b1 0 0 1 1 extra'' @ [CHR 0x0A] @
      ''end scene'' @ [CHR 0x0A]) =
     (None, \<lparr>buildings = [\<lparr>b_id = ''b1'', b_x = 0, b_y = 0, b_w = 1, b_h = 1\<rparr>],
              antennas = []\<rparr>, [])"
  by code_simp

text \<open>
  In general: once \<^verbatim>\<open>sscanf\<close> has stored every field of its format, anything that
  follows on the line after white space changes nothing, so an accepted line stays
  accepted with any further tokens appended.
\<close>

lemma sscanf_no_fields:
  "count_fields ds = 0 \<Longrightarrow> acc \<noteq> [] \<Longrightarrow> sscanf inp ds acc = (int (length acc), acc)"
  by (induction inp ds acc rule: sscanf.induct)
     (auto simp: input_failure_def split: list.splits)

lemma sscanf_fst_le:
  "fst (sscanf inp ds acc) \<le> int (length acc) + int (count_fields ds)"
proof (induction inp ds acc rule: sscanf.induct)
  case (4 inp n ds acc)
  show ?case
  proof (cases "dropWhile isspace inp")
    case Nil
    then show ?thesis
      by (simp only: sscanf.simps list.case) (simp add: input_failure_def EOF_def)
  next
    case (Cons x xs)
    define tok where "tok = take n (takeWhile (\<lambda>c. \<not> isspace c) (x # xs))"
    from "4.IH" [OF Cons tok_def] show ?thesis
      by (simp only: sscanf.simps Cons list.case Let_def tok_def [symmetric]) simp
  qed
qed (auto simp: input_failure_def EOF_def split: list.splits)

lemma takeWhile_append_stop: "\<not> P s \<Longrightarrow> takeWhile P (ys @ s # junk) = takeWhile P ys"
  by (induction ys) auto

lemma sscanf_trailing:
  assumes "inp1 = [] \<or> (\<exists>s junk. isspace s \<and> inp2 = inp1 @ s # junk)"
    and "fst (sscanf inp1 ds acc) = int (length acc) + int (count_fields ds)"
  shows "sscanf inp2 ds acc = sscanf inp1 ds acc"
  using assms
proof (induction inp1 ds acc arbitrary: inp2 rule: sscanf.induct)
  case (1 inp acc)
  then show ?case by simp
next
  case (2 inp ds acc)
  have "dropWhile isspace inp = [] \<or>
        (\<exists>s junk. isspace s \<and> dropWhile isspace inp2 = dropWhile isspace inp @ s # junk)"
  proof (cases "dropWhile isspace inp = []")
    case True
    then show ?thesis by simp
  next
    case False
    then have ne: "inp \<noteq> []" by auto
    with "2.prems"(1) obtain s junk where s: "isspace s" "inp2 = inp @ s # junk" by blast
    from False obtain y where "y \<in> set inp" "\<not> isspace y"
      by (auto simp: dropWhile_eq_Nil_conv)
    then have "dropWhile isspace (inp @ s # junk) = dropWhile isspace inp @ s # junk"
      by (rule dropWhile_append1)
    with s show ?thesis by blast
  qed
  moreover from "2.prems"(2)
  have "fst (sscanf (dropWhile isspace inp) ds acc) = int (length acc) + int (count_fields ds)"
    by simp
  ultimately have "sscanf (dropWhile isspace inp2) ds acc = sscanf (dropWhile isspace inp) ds acc"
    by (rule "2.IH")
  then show ?case by simp
next
  case (3 inp c ds acc)
  show ?case
  proof (cases inp)
    case Nil
    with "3.prems"(2) have "acc \<noteq> []" "count_fields ds = 0"
      by (auto simp: input_failure_def EOF_def split: if_splits)
    then have "sscanf inp2 (Lit c # ds) acc = (int (length acc), acc)"
      by (intro sscanf_no_fields) simp_all
    with Nil \<open>acc \<noteq> []\<close> show ?thesis by (simp add: input_failure_def)
  next
    case (Cons x xs)
    with "3.prems"(1) obtain s junk where s: "isspace s" "inp2 = x # (xs @ s # junk)" by auto
    show ?thesis
    proof (cases "x = c")
      case True
      with "3.prems"(2) Cons
      have "fst (sscanf xs ds acc) = int (length acc) + int (count_fields ds)" by simp
      with s(1) have "sscanf (xs @ s # junk) ds acc = sscanf xs ds acc"
        by (intro "3.IH" [OF Cons True]) auto
      with True Cons s(2) show ?thesis by simp
    next
      case False
      with Cons s(2) show ?thesis by simp
    qed
  qed
next
  case (4 inp n ds acc)
  show ?case
  proof (cases "dropWhile isspace inp")
    case Nil
    with "4.prems"(2) show ?thesis
      by (auto simp: input_failure_def EOF_def split: if_splits)
  next
    case (Cons x xs)
    then have "inp \<noteq> []" by auto
    with "4.prems"(1) obtain s junk where s: "isspace s" "inp2 = inp @ s # junk" by blast
    from Cons obtain y where "y \<in> set inp" "\<not> isspace y"
      by (metis dropWhile_eq_Nil_conv list.distinct(1))
    then have "dropWhile isspace (inp @ s # junk) = dropWhile isspace inp @ s # junk"
      by (rule dropWhile_append1)
    then have d2: "dropWhile isspace inp2 = x # (xs @ s # junk)"
      using s(2) Cons by simp
    define tok where "tok = take n (takeWhile (\<lambda>c. \<not> isspace c) (x # xs))"
    have "takeWhile (\<lambda>c. \<not> isspace c) ((x # xs) @ s # junk) =
          takeWhile (\<lambda>c. \<not> isspace c) (x # xs)"
      using s(1) by (intro takeWhile_append_stop) simp
    then have tok2: "take n (takeWhile (\<lambda>c. \<not> isspace c) (x # (xs @ s # junk))) = tok"
      by (simp only: tok_def append_Cons)
    have "length (takeWhile (\<lambda>c. \<not> isspace c) (x # xs)) \<le> length (x # xs)"
      by (rule length_takeWhile_le)
    then have "length tok \<le> length (x # xs)"
      unfolding tok_def length_take by (rule min.coboundedI1)
    then have "length tok - length (x # xs) = 0" by simp
    then have "drop (length tok) ((x # xs) @ s # junk) = drop (length tok) (x # xs) @ s # junk"
      by (simp only: drop_append drop_0)
    then have dr: "drop (length tok) (x # (xs @ s # junk)) = drop (length tok) (x # xs) @ s # junk"
      by (simp only: append_Cons)
    from "4.prems"(2) Cons
    have "fst (sscanf (drop (length tok) (x # xs)) ds (acc @ [tok])) =
          int (length (acc @ [tok])) + int (count_fields ds)"
      by (simp add: tok_def Let_def)
    with s(1) have ih: "sscanf (drop (length tok) (x # xs) @ s # junk) ds (acc @ [tok]) =
          sscanf (drop (length tok) (x # xs)) ds (acc @ [tok])"
      by (intro "4.IH" [OF Cons tok_def]) auto
    have "sscanf inp2 (Str n # ds) acc = sscanf (drop (length tok) (x # (xs @ s # junk))) ds (acc @ [tok])"
      by (simp only: sscanf.simps d2 list.case Let_def tok2)
    also have "\<dots> = sscanf (drop (length tok) (x # xs)) ds (acc @ [tok])"
      by (simp only: dr ih)
    also have "\<dots> = sscanf inp (Str n # ds) acc"
      by (simp only: sscanf.simps Cons list.case Let_def tok_def [symmetric])
    finally show ?thesis .
  qed
qed

lemma parse_building_line_trailing:
  assumes "parse_building_line line n = Inr b" "isspace s"
  shows "parse_building_line (line @ s # junk) n = Inr b"
proof -
  from assms(1) have "fst (sscanf line building_format []) = 5"
    by (auto simp: parse_building_line_def split: prod.splits if_splits)
  then have "fst (sscanf line building_format []) =
      int (length ([] :: string list)) + int (count_fields building_format)"
    by (simp add: building_format_def)
  with assms(2) have "sscanf (line @ s # junk) building_format [] = sscanf line building_format []"
    by (intro sscanf_trailing) auto
  with assms(1) show ?thesis by (simp add: parse_building_line_def)
qed

lemma parse_antenna_line_trailing:
  assumes "parse_antenna_line line n = Inr a" "isspace s"
  shows "parse_antenna_line (line @ s # junk) n = Inr a"
proof -
  from assms(1) have "fst (sscanf line antenna_format []) = 4"
    by (auto simp: parse_antenna_line_def split: prod.splits if_splits)
  then have "fst (sscanf line antenna_format []) =
      int (length ([] :: string list)) + int (count_fields antenna_format)"
    by (simp add: antenna_format_def)
  with assms(2) have "sscanf (line @ s # junk) antenna_format [] = sscanf line antenna_format []"
    by (intro sscanf_trailing) auto
  with assms(1) show ?thesis by (simp add: parse_antenna_line_def)
qed

subsection \<open>Silent failure on an empty stream\<close>

text \<open>
  C5. On the empty stream the first \<^verbatim>\<open>fgets\<close> returns \<^verbatim>\<open>NULL\<close> and \<^verbatim>\<open>read_scene\<close>
  returns \<^verbatim>\<open>false\<close> at once: nothing is written to the error channel.
\<close>

theorem read_scene_empty_stream_silent:
  "read_scene init_scene [] = (Some NoFirstLine, init_scene, []) \<and>
   error_message NoFirstLine = []"
  by (simp add: read_scene_def fgets_def)

subsection \<open>Overlap of buildings\<close>

lemma int32_representable: "representable k \<Longrightarrow> int32 k = k"
  by (simp add: representable_def INT_MIN_def INT_MAX_def int32_def)


lemma open_intervals_meet:
  fixes al ar bl br :: int
  assumes "al < ar" "bl < br"
  shows "(\<exists>p :: real. real_of_int al < p \<and> p < real_of_int ar \<and> real_of_int bl < p \<and> p < real_of_int br)
         \<longleftrightarrow> bl < ar \<and> al < br"
proof
  assume "\<exists>p :: real. real_of_int al < p \<and> p < real_of_int ar \<and> real_of_int bl < p \<and> p < real_of_int br"
  then obtain p :: real where "real_of_int al < p" "p < real_of_int ar" "real_of_int bl < p" "p < real_of_int br"
    by blast
  then have "real_of_int bl < real_of_int ar" "real_of_int al < real_of_int br" by linarith+
  then show "bl < ar \<and> al < br" by simp
next
  assume h: "bl < ar \<and> al < br"
  define m where "m = max al bl"
  define M where "M = min ar br"
  have "m < M" using assms h by (simp add: m_def M_def)
  then have lt: "real_of_int m < real_of_int M" by simp
  define p where "p = (real_of_int m + real_of_int M) / 2"
  have "real_of_int m < p" "p < real_of_int M" using lt by (simp_all add: p_def)
  moreover have "real_of_int al \<le> real_of_int m" "real_of_int bl \<le> real_of_int m"
    "real_of_int M \<le> real_of_int ar" "real_of_int M \<le> real_of_int br"
    by (simp_all add: m_def M_def)
  ultimately have "real_of_int al < p \<and> p < real_of_int ar \<and> real_of_int bl < p \<and> p < real_of_int br"
    by linarith
  then show "\<exists>p :: real. real_of_int al < p \<and> p < real_of_int ar \<and> real_of_int bl < p \<and> p < real_of_int br"
    by blast
qed

text \<open>
  C3. For buildings with strictly positive half-width and half-height whose edges fit in
  an \<^verbatim>\<open>int\<close>, the overlap predicate is false exactly when
  \<open>A.x + A.w \<le> B.x - B.w\<close> or \<open>A.x - A.w \<ge> B.x + B.w\<close> or \<open>A.y + A.h \<le> B.y - B.h\<close>
  or \<open>A.y - A.h \<ge> B.y + B.h\<close>, and it is true exactly when the two rectangles have an
  interior point in common: rectangles that share only an edge or a corner do not overlap.
\<close>

theorem buildings_overlap_iff:
  assumes "edges_representable A" "edges_representable B"
    and "0 < b_w A" "0 < b_h A" "0 < b_w B" "0 < b_h B"
  shows "(buildings_overlap A B \<longleftrightarrow>
            \<not> (b_x A + b_w A \<le> b_x B - b_w B \<or> b_x A - b_w A \<ge> b_x B + b_w B \<or>
               b_y A + b_h A \<le> b_y B - b_h B \<or> b_y A - b_h A \<ge> b_y B + b_h B)) \<and>
         (buildings_overlap A B \<longleftrightarrow> (\<exists>px py. in_interior A px py \<and> in_interior B px py))"
proof -
  have eq: "buildings_overlap A B \<longleftrightarrow>
            \<not> (b_x A + b_w A \<le> b_x B - b_w B \<or> b_x A - b_w A \<ge> b_x B + b_w B \<or>
               b_y A + b_h A \<le> b_y B - b_h B \<or> b_y A - b_h A \<ge> b_y B + b_h B)"
    using assms(1,2)
    by (simp add: buildings_overlap_def edges_representable_def c_add_def c_sub_def
        int32_representable)
  have x: "(\<exists>p :: real. real_of_int (b_x A - b_w A) < p \<and> p < real_of_int (b_x A + b_w A) \<and>
              real_of_int (b_x B - b_w B) < p \<and> p < real_of_int (b_x B + b_w B))
           \<longleftrightarrow> b_x B - b_w B < b_x A + b_w A \<and> b_x A - b_w A < b_x B + b_w B"
    using assms(3,5) by (intro open_intervals_meet) simp_all
  have y: "(\<exists>p :: real. real_of_int (b_y A - b_h A) < p \<and> p < real_of_int (b_y A + b_h A) \<and>
              real_of_int (b_y B - b_h B) < p \<and> p < real_of_int (b_y B + b_h B))
           \<longleftrightarrow> b_y B - b_h B < b_y A + b_h A \<and> b_y A - b_h A < b_y B + b_h B"
    using assms(4,6) by (intro open_intervals_meet) simp_all
  have "(\<exists>px py. in_interior A px py \<and> in_interior B px py) \<longleftrightarrow>
        (\<exists>p :: real. real_of_int (b_x A - b_w A) < p \<and> p < real_of_int (b_x A + b_w A) \<and>
              real_of_int (b_x B - b_w B) < p \<and> p < real_of_int (b_x B + b_w B)) \<and>
        (\<exists>p :: real. real_of_int (b_y A - b_h A) < p \<and> p < real_of_int (b_y A + b_h A) \<and>
              real_of_int (b_y B - b_h B) < p \<and> p < real_of_int (b_y B + b_h B))"
    unfolding in_interior_def by blast
  then have "(\<exists>px py. in_interior A px py \<and> in_interior B px py) \<longleftrightarrow>
        (b_x B - b_w B < b_x A + b_w A \<and> b_x A - b_w A < b_x B + b_w B) \<and>
        (b_y B - b_h B < b_y A + b_h A \<and> b_y A - b_h A < b_y B + b_h B)"
    unfolding x y .
  also have "\<dots> \<longleftrightarrow> buildings_overlap A B"
    unfolding eq by linarith
  finally have "buildings_overlap A B \<longleftrightarrow> (\<exists>px py. in_interior A px py \<and> in_interior B px py)"
    by simp
  with eq show ?thesis by blast
qed

theorem buildings_overlap_iff_witness:
  "\<not> buildings_overlap \<lparr>b_id = ''a'', b_x = 1, b_y = 1, b_w = 1, b_h = 1\<rparr>
                       \<lparr>b_id = ''b'', b_x = 3, b_y = 1, b_w = 1, b_h = 1\<rparr> \<and>
   \<not> (\<exists>px py. in_interior \<lparr>b_id = ''a'', b_x = 1, b_y = 1, b_w = 1, b_h = 1\<rparr> px py \<and>
               in_interior \<lparr>b_id = ''b'', b_x = 3, b_y = 1, b_w = 1, b_h = 1\<rparr> px py)"
proof -
  let ?A = "\<lparr>b_id = ''a'', b_x = 1, b_y = 1, b_w = 1, b_h = 1\<rparr>"
  let ?B = "\<lparr>b_id = ''b'', b_x = 3, b_y = 1, b_w = 1, b_h = 1\<rparr>"
  have r: "edges_representable ?A" "edges_representable ?B"
    by (simp_all add: edges_representable_def representable_def INT_MIN_def INT_MAX_def)
  have p: "0 < b_w ?A" "0 < b_h ?A" "0 < b_w ?B" "0 < b_h ?B" by simp_all
  note t = buildings_overlap_iff [OF r p]
  have "\<not> (\<not> (b_x ?A + b_w ?A \<le> b_x ?B - b_w ?B \<or> b_x ?A - b_w ?A \<ge> b_x ?B + b_w ?B \<or>
               b_y ?A + b_h ?A \<le> b_y ?B - b_h ?B \<or> b_y ?A - b_h ?A \<ge> b_y ?B + b_h ?B))"
    by simp
  with t have n: "\<not> buildings_overlap ?A ?B" by blast
  with t have "\<not> (\<exists>px py. in_interior ?A px py \<and> in_interior ?B px py)" by blast
  with n show ?thesis by blast
qed

text \<open>
  Without the bound on the edges the statement fails: both lines below are accepted by
  the parser, the rectangles share the interior point \<open>(5, 0)\<close> and none of the four
  inequalities holds, but \<open>x + w\<close> of the first building wraps to \<open>- 2\<close> and the
  predicate answers that they do not overlap, so the scene is read with both buildings.
\<close>

theorem buildings_overlap_wraps:
  "parse_building_line ''building a 2147483647 0 2147483647 1'' 2 =
     Inr \<lparr>b_id = ''a'', b_x = 2147483647, b_y = 0, b_w = 2147483647, b_h = 1\<rparr> \<and>
   parse_building_line ''building b 5 0 1 1'' 3 =
     Inr \<lparr>b_id = ''b'', b_x = 5, b_y = 0, b_w = 1, b_h = 1\<rparr> \<and>
   read_scene init_scene
     (text_of [''begin scene'', ''building a 2147483647 0 2147483647 1'',
               ''building b 5 0 1 1'', ''end scene'']) =
     (None,
      \<lparr>buildings = [\<lparr>b_id = ''a'', b_x = 2147483647, b_y = 0, b_w = 2147483647, b_h = 1\<rparr>,
                    \<lparr>b_id = ''b'', b_x = 5, b_y = 0, b_w = 1, b_h = 1\<rparr>],
       antennas = []\<rparr>, []) \<and>
   \<not> buildings_overlap
       \<lparr>b_id = ''a'', b_x = 2147483647, b_y = 0, b_w = 2147483647, b_h = 1\<rparr>
       \<lparr>b_id = ''b'', b_x = 5, b_y = 0, b_w = 1, b_h = 1\<rparr> \<and>
   \<not> (b_x \<lparr>b_id = ''a'', b_x = 2147483647, b_y = 0, b_w = 2147483647, b_h = 1\<rparr> +
      b_w \<lparr>b_id = ''a'', b_x = 2147483647, b_y = 0, b_w = 2147483647, b_h = 1\<rparr>
        \<le> b_x \<lparr>b_id = ''b'', b_x = 5, b_y = 0, b_w = 1, b_h = 1\<rparr> -
          b_w \<lparr>b_id = ''b'', b_x = 5, b_y = 0, b_w = 1, b_h = 1\<rparr> \<or>
      b_x \<lparr>b_id = ''a'', b_x = 2147483647, b_y = 0, b_w = 2147483647, b_h = 1\<rparr> -
      b_w \<lparr>b_id = ''a'', b_x = 2147483647, b_y = 0, b_w = 2147483647, b_h = 1\<rparr>
        \<ge> b_x \<lparr>b_id = ''b'', b_x = 5, b_y = 0, b_w = 1, b_h = 1\<rparr> +
          b_w \<lparr>b_id = ''b'', b_x = 5, b_y = 0, b_w = 1, b_h = 1\<rparr> \<or>
      b_y \<lparr>b_id = ''a'', b_x = 2147483647, b_y = 0, b_w = 2147483647, b_h = 1\<rparr> +
      b_h \<lparr>b_id = ''a'', b_x = 2147483647, b_y = 0, b_w = 2147483647, b_h = 1\<rparr>
        \<le> b_y \<lparr>b_id = ''b'', b_x = 5, b_y = 0, b_w = 1, b_h = 1\<rparr> -
          b_h \<lparr>b_id = ''b'', b_x = 5, b_y = 0, b_w = 1, b_h = 1\<rparr> \<or>
      b_y \<lparr>b_id = ''a'', b_x = 2147483647, b_y = 0, b_w = 2147483647, b_h = 1\<rparr> -
      b_h \<lparr>b_id = ''a'', b_x = 2147483647, b_y = 0, b_w = 2147483647, b_h = 1\<rparr>
        \<ge> b_y \<lparr>b_id = ''b'', b_x = 5, b_y = 0, b_w = 1, b_h = 1\<rparr> +
          b_h \<lparr>b_id = ''b'', b_x = 5, b_y = 0, b_w = 1, b_h = 1\<rparr>) \<and>
   in_interior \<lparr>b_id = ''a'', b_x = 2147483647, b_y = 0, b_w = 2147483647, b_h = 1\<rparr> 5 0 \<and>
   in_interior \<lparr>b_id = ''b'', b_x = 5, b_y = 0, b_w = 1, b_h = 1\<rparr> 5 0"
proof -
  have 1: "parse_building_line ''building a 2147483647 0 2147483647 1'' 2 =
     Inr \<lparr>b_id = ''a'', b_x = 2147483647, b_y = 0, b_w = 2147483647, b_h = 1\<rparr>"
    by code_simp
  have 2: "parse_building_line ''building b 5 0 1 1'' 3 =
     Inr \<lparr>b_id = ''b'', b_x = 5, b_y = 0, b_w = 1, b_h = 1\<rparr>"
    by code_simp
  have 3: "\<not> buildings_overlap
      \<lparr>b_id = ''a'', b_x = 2147483647, b_y = 0, b_w = 2147483647, b_h = 1\<rparr>
      \<lparr>b_id = ''b'', b_x = 5, b_y = 0, b_w = 1, b_h = 1\<rparr>"
    by (simp add: buildings_overlap_def c_add_def c_sub_def int32_def)
  have 4: "in_interior \<lparr>b_id = ''a'', b_x = 2147483647, b_y = 0, b_w = 2147483647, b_h = 1\<rparr> 5 0"
    "in_interior \<lparr>b_id = ''b'', b_x = 5, b_y = 0, b_w = 1, b_h = 1\<rparr> 5 0"
    by (simp_all add: in_interior_def)
  have 5: "read_scene init_scene
     (text_of [''begin scene'', ''building a 2147483647 0 2147483647 1'',
               ''building b 5 0 1 1'', ''end scene'']) =
     (None,
      \<lparr>buildings = [\<lparr>b_id = ''a'', b_x = 2147483647, b_y = 0, b_w = 2147483647, b_h = 1\<rparr>,
                    \<lparr>b_id = ''b'', b_x = 5, b_y = 0, b_w = 1, b_h = 1\<rparr>],
       antennas = []\<rparr>, [])"
    by code_simp
  from 1 2 3 4 5 show ?thesis by simp
qed

text \<open>
  C9. The overlap predicate is symmetric: \<open>buildings_overlap a b\<close> and
  \<open>buildings_overlap b a\<close> are equal for every pair of buildings.
\<close>

theorem buildings_overlap_sym: "buildings_overlap a b = buildings_overlap b a"
  by (auto simp: buildings_overlap_def)

theorem buildings_overlap_sym_witness:
  "buildings_overlap \<lparr>b_id = ''b1'', b_x = 0, b_y = 0, b_w = 2, b_h = 2\<rparr>
                     \<lparr>b_id = ''b2'', b_x = 3, b_y = 0, b_w = 2, b_h = 2\<rparr> \<and>
   buildings_overlap \<lparr>b_id = ''b2'', b_x = 3, b_y = 0, b_w = 2, b_h = 2\<rparr>
                     \<lparr>b_id = ''b1'', b_x = 0, b_y = 0, b_w = 2, b_h = 2\<rparr>"
  using buildings_overlap_sym [of "\<lparr>b_id = ''b1'', b_x = 0, b_y = 0, b_w = 2, b_h = 2\<rparr>"
                                  "\<lparr>b_id = ''b2'', b_x = 3, b_y = 0, b_w = 2, b_h = 2\<rparr>"]
  by (simp add: buildings_overlap_def c_add_def c_sub_def int32_def)

subsection \<open>Adding an antenna\<close>

lemma is_duplicate_antenna_id_iff:
  "is_duplicate_antenna_id scene i \<longleftrightarrow> i \<in> a_id ` set (antennas scene)"
  by (auto simp: is_duplicate_antenna_id_def list_ex_iff strcmp_eq_0_iff)

lemma check_antenna_positions_inner_None:
  "check_antenna_positions_inner a bs = None \<longleftrightarrow>
     (\<forall>k<length bs. \<not> has_same_position a (bs ! k))"
  by (induction bs) (auto simp: less_Suc_eq_0_disj)

lemma check_antenna_positions_inner_Some:
  "check_antenna_positions_inner a bs = Some p \<Longrightarrow>
     \<exists>k<length bs. p = (a_id a, a_id (bs ! k)) \<and> has_same_position a (bs ! k) \<and>
       (\<forall>k'<k. \<not> has_same_position a (bs ! k'))"
proof (induction bs)
  case Nil
  then show ?case by simp
next
  case (Cons b bs)
  show ?case
  proof (cases "has_same_position a b")
    case True
    with Cons.prems have "p = (a_id a, a_id b)" by simp
    with True show ?thesis by (intro exI [of _ 0]) simp
  next
    case False
    with Cons.prems have "check_antenna_positions_inner a bs = Some p" by simp
    from Cons.IH [OF this] obtain k where k: "k < length bs" "p = (a_id a, a_id (bs ! k))"
      "has_same_position a (bs ! k)" "\<forall>k'<k. \<not> has_same_position a (bs ! k')"
      by blast
    have "\<forall>k'<Suc k. \<not> has_same_position a ((b # bs) ! k')"
      using False k(4) by (auto simp: less_Suc_eq_0_disj)
    with k(1-3) show ?thesis by (intro exI [of _ "Suc k"]) simp
  qed
qed

lemma check_antenna_positions_outer_None:
  "check_antenna_positions_outer as = None \<longleftrightarrow>
     (\<forall>i j. i < j \<and> j < length as \<longrightarrow> \<not> has_same_position (as ! i) (as ! j))"
proof (induction as)
  case Nil
  then show ?case by simp
next
  case (Cons a as)
  have "check_antenna_positions_outer (a # as) = None \<longleftrightarrow>
        check_antenna_positions_inner a as = None \<and> check_antenna_positions_outer as = None"
    by (simp split: option.splits)
  also have "\<dots> \<longleftrightarrow> (\<forall>k<length as. \<not> has_same_position a (as ! k)) \<and>
        (\<forall>i j. i < j \<and> j < length as \<longrightarrow> \<not> has_same_position (as ! i) (as ! j))"
    by (simp only: check_antenna_positions_inner_None Cons.IH)
  also have "\<dots> \<longleftrightarrow> (\<forall>i j. i < j \<and> j < length (a # as) \<longrightarrow>
        \<not> has_same_position ((a # as) ! i) ((a # as) ! j))"
  proof (intro iffI allI impI, goal_cases)
    case (1 i j)
    then show ?case by (cases i; cases j) auto
  next
    case 2
    show ?case
    proof (intro conjI allI impI)
      fix k assume "k < length as"
      with 2 [rule_format, of 0 "Suc k"] show "\<not> has_same_position a (as ! k)" by simp
    next
      fix i j assume "i < j \<and> j < length as"
      with 2 [rule_format, of "Suc i" "Suc j"] show "\<not> has_same_position (as ! i) (as ! j)"
        by simp
    qed
  qed
  finally show ?case .
qed

lemma check_antenna_positions_outer_Some:
  "check_antenna_positions_outer as = Some p \<Longrightarrow>
     \<exists>i j. i < j \<and> j < length as \<and> p = (a_id (as ! i), a_id (as ! j)) \<and>
       has_same_position (as ! i) (as ! j) \<and>
       (\<forall>i' j'. i' < j' \<and> j' < length as \<and> (i' < i \<or> i' = i \<and> j' < j) \<longrightarrow>
          \<not> has_same_position (as ! i') (as ! j'))"
proof (induction as)
  case Nil
  then show ?case by simp
next
  case (Cons a as)
  show ?case
  proof (cases "check_antenna_positions_inner a as")
    case (Some q)
    with Cons.prems have "q = p" by simp
    with Some check_antenna_positions_inner_Some [of a as p]
    obtain k where k: "k < length as" "p = (a_id a, a_id (as ! k))"
      "has_same_position a (as ! k)" "\<forall>k'<k. \<not> has_same_position a (as ! k')"
      by blast
    have "\<forall>i' j'. i' < j' \<and> j' < length (a # as) \<and> (i' < 0 \<or> i' = 0 \<and> j' < Suc k) \<longrightarrow>
          \<not> has_same_position ((a # as) ! i') ((a # as) ! j')"
    proof (intro allI impI)
      fix i' j'
      assume h: "i' < j' \<and> j' < length (a # as) \<and> (i' < 0 \<or> i' = 0 \<and> j' < Suc k)"
      then obtain k' where "j' = Suc k'" "k' < k" "i' = 0" by (cases j') auto
      with k(4) show "\<not> has_same_position ((a # as) ! i') ((a # as) ! j')" by simp
    qed
    with k(1-3) show ?thesis
      by (intro exI [of _ 0] exI [of _ "Suc k"]) simp
  next
    case None
    with Cons.prems have "check_antenna_positions_outer as = Some p" by simp
    from Cons.IH [OF this] obtain i j where ij: "i < j" "j < length as"
      "p = (a_id (as ! i), a_id (as ! j))" "has_same_position (as ! i) (as ! j)"
      "\<forall>i' j'. i' < j' \<and> j' < length as \<and> (i' < i \<or> i' = i \<and> j' < j) \<longrightarrow>
          \<not> has_same_position (as ! i') (as ! j')"
      by blast
    from None have inner: "\<forall>k<length as. \<not> has_same_position a (as ! k)"
      by (simp add: check_antenna_positions_inner_None)
    have "\<forall>i' j'. i' < j' \<and> j' < length (a # as) \<and> (i' < Suc i \<or> i' = Suc i \<and> j' < Suc j) \<longrightarrow>
          \<not> has_same_position ((a # as) ! i') ((a # as) ! j')"
    proof (intro allI impI)
      fix i' j'
      assume h: "i' < j' \<and> j' < length (a # as) \<and> (i' < Suc i \<or> i' = Suc i \<and> j' < Suc j)"
      then obtain k' where j': "j' = Suc k'" "k' < length as" by (cases j') auto
      show "\<not> has_same_position ((a # as) ! i') ((a # as) ! j')"
      proof (cases i')
        case 0
        with j' inner show ?thesis by simp
      next
        case (Suc i'')
        with h j' have "i'' < k' \<and> k' < length as \<and> (i'' < i \<or> i'' = i \<and> k' < j)" by auto
        with ij(5) have "\<not> has_same_position (as ! i'') (as ! k')" by blast
        with Suc j' show ?thesis by simp
      qed
    qed
    with ij(1-4) show ?thesis
      by (intro exI [of _ "Suc i"] exI [of _ "Suc j"]) simp
  qed
qed

text \<open>The outcome of \<open>add_antenna\<close> in terms of \<^verbatim>\<open>has_same_position\<close>.\<close>

lemma add_antenna_first_collision:
  assumes "length (antennas sc) < MAX_ANTENNAS"
  shows "fst (add_antenna (sc\<lparr>buildings := bs\<rparr>) a) = fst (add_antenna sc a) \<and>
    (if a_id a \<in> a_id ` set (antennas sc)
     then add_antenna sc a = (Some (DuplicateAntennaId (a_id a)), sc)
     else snd (add_antenna sc a) = sc\<lparr>antennas := antennas sc @ [a]\<rparr> \<and>
       (case fst (add_antenna sc a) of
          None \<Rightarrow>
            \<forall>i j. i < j \<and> j < length (antennas sc @ [a]) \<longrightarrow>
              \<not> has_same_position ((antennas sc @ [a]) ! i) ((antennas sc @ [a]) ! j)
        | Some e \<Rightarrow>
            \<exists>i j. i < j \<and> j < length (antennas sc @ [a]) \<and>
              e = SamePosition (a_id ((antennas sc @ [a]) ! i)) (a_id ((antennas sc @ [a]) ! j)) \<and>
              has_same_position ((antennas sc @ [a]) ! i) ((antennas sc @ [a]) ! j) \<and>
              (\<forall>i' j'. i' < j' \<and> j' < length (antennas sc @ [a]) \<and> (i' < i \<or> i' = i \<and> j' < j) \<longrightarrow>
                 \<not> has_same_position ((antennas sc @ [a]) ! i') ((antennas sc @ [a]) ! j'))))"
proof (intro conjI)
  show "fst (add_antenna (sc\<lparr>buildings := bs\<rparr>) a) = fst (add_antenna sc a)"
    by (simp add: add_antenna_def is_duplicate_antenna_id_def check_antenna_positions_def
        Let_def split: option.splits prod.splits)
next
  let ?as = "antennas sc @ [a]"
  show "if a_id a \<in> a_id ` set (antennas sc)
     then add_antenna sc a = (Some (DuplicateAntennaId (a_id a)), sc)
     else snd (add_antenna sc a) = sc\<lparr>antennas := ?as\<rparr> \<and>
       (case fst (add_antenna sc a) of
          None \<Rightarrow>
            \<forall>i j. i < j \<and> j < length ?as \<longrightarrow> \<not> has_same_position (?as ! i) (?as ! j)
        | Some e \<Rightarrow>
            \<exists>i j. i < j \<and> j < length ?as \<and>
              e = SamePosition (a_id (?as ! i)) (a_id (?as ! j)) \<and>
              has_same_position (?as ! i) (?as ! j) \<and>
              (\<forall>i' j'. i' < j' \<and> j' < length ?as \<and> (i' < i \<or> i' = i \<and> j' < j) \<longrightarrow>
                 \<not> has_same_position (?as ! i') (?as ! j')))"
  proof (cases "a_id a \<in> a_id ` set (antennas sc)")
    case True
    then show ?thesis by (simp add: add_antenna_def is_duplicate_antenna_id_iff)
  next
    case False
    show ?thesis
    proof (cases "check_antenna_positions_outer ?as")
      case None
      then have "add_antenna sc a = (None, sc\<lparr>antennas := ?as\<rparr>)"
        using False
        by (simp add: add_antenna_def is_duplicate_antenna_id_iff check_antenna_positions_def)
      moreover from None have "\<forall>i j. i < j \<and> j < length ?as \<longrightarrow>
          \<not> has_same_position (?as ! i) (?as ! j)"
        by (simp only: check_antenna_positions_outer_None)
      ultimately show ?thesis using False by simp
    next
      case (Some p)
      from check_antenna_positions_outer_Some [OF Some]
      obtain i j where ij: "i < j" "j < length ?as" "p = (a_id (?as ! i), a_id (?as ! j))"
        "has_same_position (?as ! i) (?as ! j)"
        "\<forall>i' j'. i' < j' \<and> j' < length ?as \<and> (i' < i \<or> i' = i \<and> j' < j) \<longrightarrow>
           \<not> has_same_position (?as ! i') (?as ! j')"
        by blast
      from Some ij(3) have "add_antenna sc a =
          (Some (SamePosition (a_id (?as ! i)) (a_id (?as ! j))), sc\<lparr>antennas := ?as\<rparr>)"
        using False
        by (simp add: add_antenna_def is_duplicate_antenna_id_iff check_antenna_positions_def)
      then have "snd (add_antenna sc a) = sc\<lparr>antennas := ?as\<rparr>"
        and "fst (add_antenna sc a) = Some (SamePosition (a_id (?as ! i)) (a_id (?as ! j)))"
        by simp_all
      moreover have "\<exists>i' j'. i' < j' \<and> j' < length ?as \<and>
              SamePosition (a_id (?as ! i)) (a_id (?as ! j)) =
                SamePosition (a_id (?as ! i')) (a_id (?as ! j')) \<and>
              has_same_position (?as ! i') (?as ! j') \<and>
              (\<forall>i'' j''. i'' < j'' \<and> j'' < length ?as \<and> (i'' < i' \<or> i'' = i' \<and> j'' < j') \<longrightarrow>
                 \<not> has_same_position (?as ! i'') (?as ! j''))"
        using ij(1,2,4,5) by blast
      ultimately show ?thesis using False by simp
    qed
  qed
qed

text \<open>
  C8. Adding a parsed antenna \<open>a\<close> to a scene whose antenna array is not full. If the
  identifier of \<open>a\<close> is the identifier of an antenna of the scene, the operation fails with
  \<open>DuplicateAntennaId\<close> and leaves the scene as it was; the buildings play no part.
  Otherwise \<open>a\<close> is appended, and then: either no two antennas of the new collection
  have the same \<open>x\<close> and the same \<open>y\<close> and the operation succeeds, or it fails with
  \<open>SamePosition\<close>, naming the first pair \<open>i < j\<close> in collection order with the same \<open>x\<close>
  and the same \<open>y\<close>, the earlier antenna first.
\<close>

theorem add_antenna_spec:
  assumes "length (antennas sc) < MAX_ANTENNAS"
  shows "fst (add_antenna (sc\<lparr>buildings := bs\<rparr>) a) = fst (add_antenna sc a) \<and>
    (if a_id a \<in> a_id ` set (antennas sc)
     then add_antenna sc a = (Some (DuplicateAntennaId (a_id a)), sc)
     else snd (add_antenna sc a) = sc\<lparr>antennas := antennas sc @ [a]\<rparr> \<and>
       (case fst (add_antenna sc a) of
          None \<Rightarrow>
            \<forall>i j. i < j \<and> j < length (antennas sc @ [a]) \<longrightarrow>
              \<not> (a_x ((antennas sc @ [a]) ! i) = a_x ((antennas sc @ [a]) ! j) \<and>
                 a_y ((antennas sc @ [a]) ! i) = a_y ((antennas sc @ [a]) ! j))
        | Some e \<Rightarrow>
            \<exists>i j. i < j \<and> j < length (antennas sc @ [a]) \<and>
              e = SamePosition (a_id ((antennas sc @ [a]) ! i)) (a_id ((antennas sc @ [a]) ! j)) \<and>
              (a_x ((antennas sc @ [a]) ! i) = a_x ((antennas sc @ [a]) ! j) \<and>
               a_y ((antennas sc @ [a]) ! i) = a_y ((antennas sc @ [a]) ! j)) \<and>
              (\<forall>i' j'. i' < j' \<and> j' < length (antennas sc @ [a]) \<and> (i' < i \<or> i' = i \<and> j' < j) \<longrightarrow>
                 \<not> (a_x ((antennas sc @ [a]) ! i') = a_x ((antennas sc @ [a]) ! j') \<and>
                    a_y ((antennas sc @ [a]) ! i') = a_y ((antennas sc @ [a]) ! j')))))"
  using add_antenna_first_collision [OF assms, of bs a] unfolding has_same_position_def .

theorem add_antenna_spec_witness:
  "add_antenna \<lparr>buildings = [], antennas = [\<lparr>a_id = ''a1'', a_x = 5, a_y = 5, a_r = 3\<rparr>]\<rparr>
       \<lparr>a_id = ''a1'', a_x = 0, a_y = 0, a_r = 1\<rparr> =
     (Some (DuplicateAntennaId ''a1''),
      \<lparr>buildings = [], antennas = [\<lparr>a_id = ''a1'', a_x = 5, a_y = 5, a_r = 3\<rparr>]\<rparr>) \<and>
   add_antenna \<lparr>buildings = [], antennas = [\<lparr>a_id = ''a1'', a_x = 5, a_y = 5, a_r = 3\<rparr>]\<rparr>
       \<lparr>a_id = ''a2'', a_x = 5, a_y = 5, a_r = 2\<rparr> =
     (Some (SamePosition ''a1'' ''a2''),
      \<lparr>buildings = [], antennas = [\<lparr>a_id = ''a1'', a_x = 5, a_y = 5, a_r = 3\<rparr>,
                                   \<lparr>a_id = ''a2'', a_x = 5, a_y = 5, a_r = 2\<rparr>]\<rparr>) \<and>
   add_antenna \<lparr>buildings = [], antennas = [\<lparr>a_id = ''a1'', a_x = 5, a_y = 5, a_r = 3\<rparr>]\<rparr>
       \<lparr>a_id = ''a3'', a_x = 5, a_y = 6, a_r = 2\<rparr> =
     (None,
      \<lparr>buildings = [], antennas = [\<lparr>a_id = ''a1'', a_x = 5, a_y = 5, a_r = 3\<rparr>,
                                   \<lparr>a_id = ''a3'', a_x = 5, a_y = 6, a_r = 2\<rparr>]\<rparr>) \<and>
   add_antenna \<lparr>buildings = [], antennas = [\<lparr>a_id = ''a1'', a_x = 5, a_y = 5, a_r = 3\<rparr>]\<rparr>
       \<lparr>a_id = ''a4'', a_x = 6, a_y = 5, a_r = 2\<rparr> =
     (None,
      \<lparr>buildings = [], antennas = [\<lparr>a_id = ''a1'', a_x = 5, a_y = 5, a_r = 3\<rparr>,
                                   \<lparr>a_id = ''a4'', a_x = 6, a_y = 5, a_r = 2\<rparr>]\<rparr>)"
proof -
  let ?sc = "\<lparr>buildings = [], antennas = [\<lparr>a_id = ''a1'', a_x = 5, a_y = 5, a_r = 3\<rparr>]\<rparr>"
  have cap: "length (antennas ?sc) < MAX_ANTENNAS" by (simp add: MAX_ANTENNAS_def)
  have two: "\<And>i j :: nat. i < j \<Longrightarrow> j < 2 \<Longrightarrow> i = 0 \<and> j = 1" by simp
  let ?d = "\<lparr>a_id = ''a1'', a_x = 0, a_y = 0, a_r = 1\<rparr>"
  have "a_id ?d \<in> a_id ` set (antennas ?sc)" by simp
  with add_antenna_spec [OF cap, of "[]" ?d]
  have 1: "add_antenna ?sc ?d = (Some (DuplicateAntennaId ''a1''), ?sc)" by simp
  let ?a = "\<lparr>a_id = ''a2'', a_x = 5, a_y = 5, a_r = 2\<rparr>"
  have 2: "add_antenna ?sc ?a = (Some (SamePosition ''a1'' ''a2''), ?sc\<lparr>antennas := antennas ?sc @ [?a]\<rparr>)"
  proof -
    have fresh: "a_id ?a \<notin> a_id ` set (antennas ?sc)" by simp
    from add_antenna_spec [OF cap, of "[]" ?a] fresh
    have s: "snd (add_antenna ?sc ?a) = ?sc\<lparr>antennas := antennas ?sc @ [?a]\<rparr>"
      and c: "case fst (add_antenna ?sc ?a) of
          None \<Rightarrow>
            \<forall>i j. i < j \<and> j < length (antennas ?sc @ [?a]) \<longrightarrow>
              \<not> (a_x ((antennas ?sc @ [?a]) ! i) = a_x ((antennas ?sc @ [?a]) ! j) \<and>
                 a_y ((antennas ?sc @ [?a]) ! i) = a_y ((antennas ?sc @ [?a]) ! j))
        | Some e \<Rightarrow>
            \<exists>i j. i < j \<and> j < length (antennas ?sc @ [?a]) \<and>
              e = SamePosition (a_id ((antennas ?sc @ [?a]) ! i)) (a_id ((antennas ?sc @ [?a]) ! j)) \<and>
              (a_x ((antennas ?sc @ [?a]) ! i) = a_x ((antennas ?sc @ [?a]) ! j) \<and>
               a_y ((antennas ?sc @ [?a]) ! i) = a_y ((antennas ?sc @ [?a]) ! j)) \<and>
              (\<forall>i' j'. i' < j' \<and> j' < length (antennas ?sc @ [?a]) \<and> (i' < i \<or> i' = i \<and> j' < j) \<longrightarrow>
                 \<not> (a_x ((antennas ?sc @ [?a]) ! i') = a_x ((antennas ?sc @ [?a]) ! j') \<and>
                    a_y ((antennas ?sc @ [?a]) ! i') = a_y ((antennas ?sc @ [?a]) ! j')))"
      by simp_all
    have "fst (add_antenna ?sc ?a) = Some (SamePosition ''a1'' ''a2'')"
    proof (cases "fst (add_antenna ?sc ?a)")
      case None
      with c have "\<forall>i j. i < j \<and> j < length (antennas ?sc @ [?a]) \<longrightarrow>
              \<not> (a_x ((antennas ?sc @ [?a]) ! i) = a_x ((antennas ?sc @ [?a]) ! j) \<and>
                 a_y ((antennas ?sc @ [?a]) ! i) = a_y ((antennas ?sc @ [?a]) ! j))" by simp
      from this [rule_format, of 0 1] show ?thesis by simp
    next
      case (Some e)
      with c obtain i j where ij: "i < j" "j < length (antennas ?sc @ [?a])"
        "e = SamePosition (a_id ((antennas ?sc @ [?a]) ! i)) (a_id ((antennas ?sc @ [?a]) ! j))"
        by auto
      from ij(1,2) have "i = 0 \<and> j = 1" by (intro two) simp_all
      with ij(3) Some show ?thesis by simp
    qed
    with s show ?thesis by (simp add: prod_eq_iff)
  qed
  have ok: "add_antenna ?sc \<lparr>a_id = n, a_x = px, a_y = py, a_r = 2\<rparr> =
      (None, ?sc\<lparr>antennas := antennas ?sc @ [\<lparr>a_id = n, a_x = px, a_y = py, a_r = 2\<rparr>]\<rparr>)"
    if fresh: "n \<noteq> ''a1''" and apart: "px \<noteq> 5 \<or> py \<noteq> 5" for n px py
  proof -
    let ?b = "\<lparr>a_id = n, a_x = px, a_y = py, a_r = 2\<rparr>"
    from fresh have fresh': "a_id ?b \<notin> a_id ` set (antennas ?sc)" by simp
    from add_antenna_spec [OF cap, of "[]" ?b] fresh'
    have s: "snd (add_antenna ?sc ?b) = ?sc\<lparr>antennas := antennas ?sc @ [?b]\<rparr>"
      and c: "case fst (add_antenna ?sc ?b) of
          None \<Rightarrow>
            \<forall>i j. i < j \<and> j < length (antennas ?sc @ [?b]) \<longrightarrow>
              \<not> (a_x ((antennas ?sc @ [?b]) ! i) = a_x ((antennas ?sc @ [?b]) ! j) \<and>
                 a_y ((antennas ?sc @ [?b]) ! i) = a_y ((antennas ?sc @ [?b]) ! j))
        | Some e \<Rightarrow>
            \<exists>i j. i < j \<and> j < length (antennas ?sc @ [?b]) \<and>
              e = SamePosition (a_id ((antennas ?sc @ [?b]) ! i)) (a_id ((antennas ?sc @ [?b]) ! j)) \<and>
              (a_x ((antennas ?sc @ [?b]) ! i) = a_x ((antennas ?sc @ [?b]) ! j) \<and>
               a_y ((antennas ?sc @ [?b]) ! i) = a_y ((antennas ?sc @ [?b]) ! j)) \<and>
              (\<forall>i' j'. i' < j' \<and> j' < length (antennas ?sc @ [?b]) \<and> (i' < i \<or> i' = i \<and> j' < j) \<longrightarrow>
                 \<not> (a_x ((antennas ?sc @ [?b]) ! i') = a_x ((antennas ?sc @ [?b]) ! j') \<and>
                    a_y ((antennas ?sc @ [?b]) ! i') = a_y ((antennas ?sc @ [?b]) ! j')))"
      by simp_all
    have "fst (add_antenna ?sc ?b) = None"
    proof (cases "fst (add_antenna ?sc ?b)")
      case None
      then show ?thesis .
    next
      case (Some e)
      with c obtain i j where ij: "i < j" "j < length (antennas ?sc @ [?b])"
        "a_x ((antennas ?sc @ [?b]) ! i) = a_x ((antennas ?sc @ [?b]) ! j) \<and>
         a_y ((antennas ?sc @ [?b]) ! i) = a_y ((antennas ?sc @ [?b]) ! j)"
        by auto
      from ij(1,2) have "i = 0 \<and> j = 1" by (intro two) simp_all
      with ij(3) apart show ?thesis by auto
    qed
    with s show ?thesis by (simp add: prod_eq_iff)
  qed
  have 3: "add_antenna ?sc \<lparr>a_id = ''a3'', a_x = 5, a_y = 6, a_r = 2\<rparr> =
      (None, ?sc\<lparr>antennas := antennas ?sc @ [\<lparr>a_id = ''a3'', a_x = 5, a_y = 6, a_r = 2\<rparr>]\<rparr>)"
    by (rule ok) simp_all
  have 4: "add_antenna ?sc \<lparr>a_id = ''a4'', a_x = 6, a_y = 5, a_r = 2\<rparr> =
      (None, ?sc\<lparr>antennas := antennas ?sc @ [\<lparr>a_id = ''a4'', a_x = 6, a_y = 5, a_r = 2\<rparr>]\<rparr>)"
    by (rule ok) simp_all
  from 1 2 3 4 show ?thesis by simp
qed

subsection \<open>The bounding box\<close>













subsection \<open>The description\<close>












subsection \<open>Field widths\<close>

lemma sscanf_count:
  "sscanf inp ds acc = (n, args) \<Longrightarrow> n = int (length args) \<or> n = EOF \<and> args = []"
  by (induction inp ds acc rule: sscanf.induct)
     (auto simp: input_failure_def Let_def split: list.splits if_splits)

lemma sscanf_width:
  "sscanf inp ds acc = (n, args) \<Longrightarrow>
   \<forall>d\<in>set ds. \<forall>k. d = Str k \<longrightarrow> k \<le> w \<Longrightarrow>
   \<forall>t\<in>set acc. length t \<le> w \<Longrightarrow> \<forall>t\<in>set args. length t \<le> w"
proof (induction inp ds acc rule: sscanf.induct)
  case (4 inp k ds acc)
  show ?case
  proof (cases "dropWhile isspace inp")
    case Nil
    with 4 show ?thesis by simp
  next
    case (Cons x xs)
    define tok where "tok = take k (takeWhile (\<lambda>c. \<not> isspace c) (x # xs))"
    have "k \<le> w" using "4.prems"(2) by simp
    then have "length tok \<le> w" by (simp add: tok_def)
    with "4.prems"(3) have acc: "\<forall>t\<in>set (acc @ [tok]). length t \<le> w" by simp
    have "sscanf (drop (length tok) (x # xs)) ds (acc @ [tok]) = (n, args)"
      using "4.prems"(1) Cons by (simp add: tok_def Let_def)
    from "4.IH" [OF Cons tok_def this _ acc] "4.prems"(2) show ?thesis by simp
  qed
qed (auto split: list.splits if_splits)

lemma building_format_width: "\<forall>d\<in>set building_format. \<forall>k. d = Str k \<longrightarrow> k \<le> 10"
  by (simp add: building_format_def)

lemma antenna_format_width: "\<forall>d\<in>set antenna_format. \<forall>k. d = Str k \<longrightarrow> k \<le> 10"
  by (simp add: antenna_format_def)

lemma dropWhile_token:
  assumes "list_all isspace ws" "t \<noteq> []" "\<not> list_ex isspace t"
  shows "dropWhile isspace (ws @ t @ rest) = t @ rest"
proof -
  have "dropWhile isspace (ws @ t @ rest) = dropWhile isspace (t @ rest)"
    using assms(1) by (intro dropWhile_append2) (simp add: list_all_iff)
  also have "\<dots> = t @ rest"
    using assms(2,3) by (cases t) simp_all
  finally show ?thesis .
qed

lemma takeWhile_token:
  assumes "\<not> list_ex isspace t" "rest = [] \<or> isspace (hd rest)"
  shows "takeWhile (\<lambda>c. \<not> isspace c) (t @ rest) = t"
proof -
  have "takeWhile (\<lambda>c. \<not> isspace c) (t @ rest) = t @ takeWhile (\<lambda>c. \<not> isspace c) rest"
    using assms(1) by (intro takeWhile_append2) (simp add: list_ex_iff)
  also have "takeWhile (\<lambda>c. \<not> isspace c) rest = []"
    using assms(2) by (cases rest) auto
  finally show ?thesis by simp
qed

lemma sscanf_field:
  assumes "list_all isspace ws" "t \<noteq> []" "\<not> list_ex isspace t" "rest = [] \<or> isspace (hd rest)"
  shows "sscanf (ws @ t @ rest) (Str 10 # ds) acc = sscanf (drop 10 t @ rest) ds (acc @ [take 10 t])"
proof -
  obtain x xs where x: "t @ rest = x # xs" using assms(2) by (cases t) auto
  have d: "dropWhile isspace (ws @ t @ rest) = x # xs"
    using dropWhile_token [OF assms(1-3), of rest] by (simp only: x)
  have tk: "take 10 (takeWhile (\<lambda>c. \<not> isspace c) (x # xs)) = take 10 t"
    using takeWhile_token [OF assms(3,4)] x by simp
  have "drop (length (take 10 t)) (x # xs) = drop 10 t @ rest"
    unfolding x [symmetric] by (cases "length t \<le> 10") (simp_all add: min_def)
  then show ?thesis
    by (simp only: sscanf.simps d list.case tk Let_def)
qed

lemma sscanf_long_token:
  assumes "list_all isspace ws" "\<not> list_ex isspace t" "10 < length t"
    and "rest = [] \<or> isspace (hd rest)"
  shows "sscanf (ws @ t @ rest) (Str 10 # WS # Str 10 # ds) acc =
         sscanf (drop 20 t @ rest) ds (acc @ [take 10 t, take 10 (drop 10 t)])"
proof -
  have t: "t \<noteq> []" using assms(3) by auto
  have t': "drop 10 t \<noteq> []" "\<not> list_ex isspace (drop 10 t)"
    using assms(2,3) by (auto simp: list_ex_iff dest: in_set_dropD)
  have "sscanf (ws @ t @ rest) (Str 10 # WS # Str 10 # ds) acc =
        sscanf (drop 10 t @ rest) (WS # Str 10 # ds) (acc @ [take 10 t])"
    by (rule sscanf_field [OF assms(1) t assms(2,4)])
  also have "\<dots> = sscanf ([] @ drop 10 t @ rest) (Str 10 # ds) (acc @ [take 10 t])"
    using dropWhile_token [of "[]" "drop 10 t" rest] t' by simp
  also have "\<dots> = sscanf (drop 10 (drop 10 t) @ rest) ds ((acc @ [take 10 t]) @ [take 10 (drop 10 t)])"
    by (rule sscanf_field [OF _ t' assms(4)]) simp
  finally show ?thesis by simp
qed

lemma parse_building_line_fields:
  assumes "parse_building_line line n = Inr b"
  shows "\<exists>args. sscanf line building_format [] = (5, args) \<and> length args = 5 \<and>
           (\<forall>t\<in>set args. length t \<le> 10) \<and>
           b = \<lparr>b_id = args ! 0, b_x = atoi (args ! 1), b_y = atoi (args ! 2),
                b_w = atoi (args ! 3), b_h = atoi (args ! 4)\<rparr>"
proof -
  obtain m args where s: "sscanf line building_format [] = (m, args)"
    by (cases "sscanf line building_format []")
  from assms s have m: "m = 5"
    by (auto simp: parse_building_line_def split: if_splits)
  from assms s m have b: "b = \<lparr>b_id = args ! 0, b_x = atoi (args ! 1), b_y = atoi (args ! 2),
                b_w = atoi (args ! 3), b_h = atoi (args ! 4)\<rparr>"
    by (simp add: parse_building_line_def Let_def split: if_splits)
  from sscanf_count [OF s] m have l: "length args = 5" by (auto simp: EOF_def)
  from sscanf_width [OF s building_format_width] have "\<forall>t\<in>set args. length t \<le> 10" by simp
  with s m b l show ?thesis by blast
qed

lemma parse_antenna_line_fields:
  assumes "parse_antenna_line line n = Inr a"
  shows "\<exists>args. sscanf line antenna_format [] = (4, args) \<and> length args = 4 \<and>
           (\<forall>t\<in>set args. length t \<le> 10) \<and>
           a = \<lparr>a_id = args ! 0, a_x = atoi (args ! 1), a_y = atoi (args ! 2),
                a_r = atoi (args ! 3)\<rparr>"
proof -
  obtain m args where s: "sscanf line antenna_format [] = (m, args)"
    by (cases "sscanf line antenna_format []")
  from assms s have m: "m = 4"
    by (auto simp: parse_antenna_line_def split: if_splits)
  from assms s m have a: "a = \<lparr>a_id = args ! 0, a_x = atoi (args ! 1), a_y = atoi (args ! 2),
                a_r = atoi (args ! 3)\<rparr>"
    by (simp add: parse_antenna_line_def Let_def split: if_splits)
  from sscanf_count [OF s] m have l: "length args = 4" by (auto simp: EOF_def)
  from sscanf_width [OF s antenna_format_width] have "\<forall>t\<in>set args. length t \<le> 10" by simp
  with s m a l show ?thesis by blast
qed

text \<open>
  C10. Every field of an accepted building or antenna line has at most 10 characters:
  the identifier stored and the numeric tokens converted are the fields \<^verbatim>\<open>sscanf\<close>
  stored, each read with \<^verbatim>\<open>%10s\<close>. A raw token \<open>t\<close> of 11 characters or more is never
  stored whole: the field is its first 10 characters, and when another \<^verbatim>\<open>%10s\<close> follows
  in the format, that one reads on from the 11th character, so the remainder becomes the
  next field.
\<close>

theorem parsed_fields_at_most_10:
  "(parse_building_line line n = Inr b \<longrightarrow>
      length (b_id b) \<le> 10 \<and>
      (\<exists>args. sscanf line building_format [] = (5, args) \<and> length args = 5 \<and>
         (\<forall>t\<in>set args. length t \<le> 10) \<and>
         b = \<lparr>b_id = args ! 0, b_x = atoi (args ! 1), b_y = atoi (args ! 2),
              b_w = atoi (args ! 3), b_h = atoi (args ! 4)\<rparr>)) \<and>
   (parse_antenna_line line n = Inr a \<longrightarrow>
      length (a_id a) \<le> 10 \<and>
      (\<exists>args. sscanf line antenna_format [] = (4, args) \<and> length args = 4 \<and>
         (\<forall>t\<in>set args. length t \<le> 10) \<and>
         a = \<lparr>a_id = args ! 0, a_x = atoi (args ! 1), a_y = atoi (args ! 2),
              a_r = atoi (args ! 3)\<rparr>)) \<and>
   (list_all isspace ws \<and> \<not> list_ex isspace t \<and> 10 < length t \<and>
    (rest = [] \<or> isspace (hd rest)) \<longrightarrow>
      sscanf (ws @ t @ rest) (Str 10 # WS # Str 10 # ds) acc =
        sscanf (drop 20 t @ rest) ds (acc @ [take 10 t, take 10 (drop 10 t)]))"
proof (intro conjI impI)
  assume p: "parse_building_line line n = Inr b"
  from parse_building_line_fields [OF p]
  show e: "\<exists>args. sscanf line building_format [] = (5, args) \<and> length args = 5 \<and>
         (\<forall>t\<in>set args. length t \<le> 10) \<and>
         b = \<lparr>b_id = args ! 0, b_x = atoi (args ! 1), b_y = atoi (args ! 2),
              b_w = atoi (args ! 3), b_h = atoi (args ! 4)\<rparr>" .
  then obtain args where "length args = 5" "\<forall>t\<in>set args. length t \<le> 10" "b_id b = args ! 0"
    by auto
  then show "length (b_id b) \<le> 10" by (metis nth_mem zero_less_numeral)
next
  assume p: "parse_antenna_line line n = Inr a"
  from parse_antenna_line_fields [OF p]
  show e: "\<exists>args. sscanf line antenna_format [] = (4, args) \<and> length args = 4 \<and>
         (\<forall>t\<in>set args. length t \<le> 10) \<and>
         a = \<lparr>a_id = args ! 0, a_x = atoi (args ! 1), a_y = atoi (args ! 2),
              a_r = atoi (args ! 3)\<rparr>" .
  then obtain args where "length args = 4" "\<forall>t\<in>set args. length t \<le> 10" "a_id a = args ! 0"
    by auto
  then show "length (a_id a) \<le> 10" by (metis nth_mem zero_less_numeral)
next
  assume h: "list_all isspace ws \<and> \<not> list_ex isspace t \<and> 10 < length t \<and>
    (rest = [] \<or> isspace (hd rest))"
  then show "sscanf (ws @ t @ rest) (Str 10 # WS # Str 10 # ds) acc =
        sscanf (drop 20 t @ rest) ds (acc @ [take 10 t, take 10 (drop 10 t)])"
    by (intro sscanf_long_token) simp_all
qed

theorem parsed_fields_at_most_10_witness:
  "parse_building_line ''building a 12345678901 2 3'' 2 =
     Inr \<lparr>b_id = ''a'', b_x = 1234567890, b_y = 1, b_w = 2, b_h = 3\<rparr> \<and>
   length (b_id \<lparr>b_id = ''a'', b_x = 1234567890, b_y = 1, b_w = 2, b_h = 3\<rparr>) \<le> 10 \<and>
   parse_antenna_line ''antenna abcdefghijkl 0 0 1'' 2 = Inl (InvalidInteger ''kl'' 2) \<and>
   parse_antenna_line ''antenna a 12345678901 2'' 2 =
     Inr \<lparr>a_id = ''a'', a_x = 1234567890, a_y = 1, a_r = 2\<rparr> \<and>
   length (a_id \<lparr>a_id = ''a'', a_x = 1234567890, a_y = 1, a_r = 2\<rparr>) \<le> 10 \<and>
   sscanf ('' '' @ ''12345678901'' @ '' 2 3'') (Str 10 # WS # Str 10 # [WS, Str 10]) [''a''] =
     (4, [''a'', ''1234567890'', ''1'', ''2''])"
proof -
  let ?b = "\<lparr>b_id = ''a'', b_x = 1234567890, b_y = 1, b_w = 2, b_h = 3\<rparr>"
  have 1: "parse_building_line ''building a 12345678901 2 3'' 2 = Inr ?b"
    by code_simp
  have 2: "parse_antenna_line ''antenna abcdefghijkl 0 0 1'' 2 = Inl (InvalidInteger ''kl'' 2)"
    by code_simp
  have sp: "list_all isspace '' ''" "\<not> list_ex isspace ''12345678901''"
    "isspace (hd '' 2 3'')"
    by (simp_all add: isspace_def)
  note t = parsed_fields_at_most_10 [of "''building a 12345678901 2 3''" 2 ?b _
      "'' ''" "''12345678901''" "'' 2 3''" "[WS, Str 10]" "[''a'']"]
  from t 1 have 3: "length (b_id ?b) \<le> 10" by blast
  let ?a = "\<lparr>a_id = ''a'', a_x = 1234567890, a_y = 1, a_r = 2\<rparr>"
  have 6: "parse_antenna_line ''antenna a 12345678901 2'' 2 = Inr ?a"
    by code_simp
  with parsed_fields_at_most_10 [of _ 2 _ ?a _ _ _ _ _, where line = "''antenna a 12345678901 2''"]
  have 7: "length (a_id ?a) \<le> 10" by blast
  from t sp have "sscanf ('' '' @ ''12345678901'' @ '' 2 3'') (Str 10 # WS # Str 10 # [WS, Str 10]) [''a''] =
      sscanf (drop 20 ''12345678901'' @ '' 2 3'') [WS, Str 10]
        ([''a''] @ [take 10 ''12345678901'', take 10 (drop 10 ''12345678901'')])"
    by simp
  also have "\<dots> = (4, [''a'', ''1234567890'', ''1'', ''2''])"
    by code_simp
  finally have 4: "sscanf ('' '' @ ''12345678901'' @ '' 2 3'') (Str 10 # WS # Str 10 # [WS, Str 10]) [''a''] =
     (4, [''a'', ''1234567890'', ''1'', ''2''])" .
  from 1 2 3 4 6 7 show ?thesis by blast
qed

text \<open>
  When the long token is in the last field of the format there is no next field: the
  remainder is not read at all, and the line is accepted with the first 10 characters as
  the number. The two lines below are accepted, the 11-character and 14-character tokens
  giving \<open>r = 1234567890\<close> and \<open>h = 1234567890\<close>.
\<close>

lemma sscanf_last_field:
  assumes "list_all isspace ws" "\<not> list_ex isspace t" "10 < length t"
    and "rest = [] \<or> isspace (hd rest)"
  shows "sscanf (ws @ t @ rest) [Str 10, WS] acc = (int (length acc) + 1, acc @ [take 10 t])"
proof -
  from assms(3) have t: "t \<noteq> []" by auto
  have "sscanf (ws @ t @ rest) [Str 10, WS] acc =
      sscanf (drop 10 t @ rest) [WS] (acc @ [take 10 t])"
    by (rule sscanf_field [OF assms(1) t assms(2,4)])
  then show ?thesis by simp
qed

theorem long_token_in_last_field:
  "parse_antenna_line ''antenna a 0 0 12345678901'' 2 =
     Inr \<lparr>a_id = ''a'', a_x = 0, a_y = 0, a_r = 1234567890\<rparr> \<and>
   sscanf ''antenna a 0 0 12345678901'' antenna_format [] =
     (4, [''a'', ''0'', ''0'', ''1234567890'']) \<and>
   parse_building_line ''building b 0 0 1 12345678901234'' 2 =
     Inr \<lparr>b_id = ''b'', b_x = 0, b_y = 0, b_w = 1, b_h = 1234567890\<rparr> \<and>
   sscanf ''building b 0 0 1 12345678901234'' building_format [] =
     (5, [''b'', ''0'', ''0'', ''1'', ''1234567890''])"
  by code_simp

subsection \<open>The scene reader\<close>

lemma read_lines_eof: "fgets MAX_LINE_LENGTH inp = None \<Longrightarrow>
    read_lines sc k inp = (Some MissingEndMarker, sc, inp)"
  by (subst read_lines.simps) simp

lemma read_lines_end:
  "fgets MAX_LINE_LENGTH inp = Some (buf, rest) \<Longrightarrow> strip_newline (c_str buf) = ''end scene'' \<Longrightarrow>
     read_lines sc k inp = (None, sc, rest)"
  by (subst read_lines.simps) (simp add: is_end_scene_def strcmp_eq_0_iff)

lemma read_lines_fail:
  "fgets MAX_LINE_LENGTH inp = Some (buf, rest) \<Longrightarrow> strip_newline (c_str buf) \<noteq> ''end scene'' \<Longrightarrow>
   process_line sc (strip_newline (c_str buf)) (k + 1) = (Some e, sc') \<Longrightarrow>
     read_lines sc k inp = (Some e, sc', rest)"
  by (subst read_lines.simps) (simp add: is_end_scene_def strcmp_eq_0_iff)

lemma read_lines_step:
  "fgets MAX_LINE_LENGTH inp = Some (buf, rest) \<Longrightarrow> strip_newline (c_str buf) \<noteq> ''end scene'' \<Longrightarrow>
   process_line sc (strip_newline (c_str buf)) (k + 1) = (None, sc') \<Longrightarrow>
     read_lines sc k inp = read_lines sc' (k + 1) rest"
  by (subst read_lines.simps) (simp add: is_end_scene_def strcmp_eq_0_iff)

















subsection \<open>Scenes that were read have distinct identifiers\<close>

lemma is_duplicate_building_id_iff:
  "is_duplicate_building_id scene i \<longleftrightarrow> i \<in> b_id ` set (buildings scene)"
  by (auto simp: is_duplicate_building_id_def list_ex_iff strcmp_eq_0_iff)

lemma add_building_distinct_ids:
  "add_building sc b = (None, sc') \<Longrightarrow> distinct_ids sc \<Longrightarrow> distinct_ids sc'"
  by (auto simp: add_building_def distinct_ids_def is_duplicate_building_id_iff
      split: if_splits option.splits)

lemma add_antenna_distinct_ids:
  "add_antenna sc a = (None, sc') \<Longrightarrow> distinct_ids sc \<Longrightarrow> distinct_ids sc'"
  by (auto simp: add_antenna_def distinct_ids_def is_duplicate_antenna_id_iff Let_def
      split: if_splits option.splits)

lemma process_line_distinct_ids:
  "process_line sc line k = (None, sc') \<Longrightarrow> distinct_ids sc \<Longrightarrow> distinct_ids sc'"
  by (auto simp: process_line_def process_building_def process_antenna_def Let_def
      simp del: sscanf.simps
      split: prod.splits if_splits sum.splits
      dest: add_building_distinct_ids add_antenna_distinct_ids)

lemma read_lines_distinct_ids:
  "read_lines sc k inp = (None, sc', rest) \<Longrightarrow> distinct_ids sc \<Longrightarrow> distinct_ids sc'"
proof (induction sc k inp rule: read_lines.induct)
  case (1 scene line_num inp)
  show ?case
  proof (cases "fgets MAX_LINE_LENGTH inp")
    case None
    with "1.prems" show ?thesis by (simp add: read_lines_eof)
  next
    case (Some p)
    obtain buf mid where p: "p = (buf, mid)" by (cases p)
    let ?line = "strip_newline (c_str buf)"
    show ?thesis
    proof (cases "?line = ''end scene''")
      case True
      with Some p "1.prems" show ?thesis by (simp add: read_lines_end)
    next
      case False
      obtain r sc1 where pl: "process_line scene ?line (line_num + 1) = (r, sc1)"
        by (cases "process_line scene ?line (line_num + 1)")
      show ?thesis
      proof (cases r)
        case None
        with Some p False pl have "read_lines scene line_num inp = read_lines sc1 (line_num + 1) mid"
          by (simp add: read_lines_step)
        with "1.prems"(1) have rl: "read_lines sc1 (line_num + 1) mid = (None, sc', rest)" by simp
        from pl None "1.prems"(2) have d: "distinct_ids sc1"
          by (auto dest: process_line_distinct_ids)
        from False have ne: "\<not> is_end_scene ?line" by (simp add: is_end_scene_def strcmp_eq_0_iff)
        from "1.IH" [OF Some p [symmetric] refl ne pl [symmetric] None rl d] show ?thesis .
      next
        case (Some e)
        with \<open>fgets MAX_LINE_LENGTH inp = Some p\<close> p False pl "1.prems" show ?thesis
          by (simp add: read_lines_fail)
      qed
    qed
  qed
qed

lemma read_scene_distinct_ids:
  "read_scene init_scene inp = (None, sc, rest) \<Longrightarrow> distinct_ids sc"
proof -
  assume r: "read_scene init_scene inp = (None, sc, rest)"
  have i: "distinct_ids init_scene" by (simp add: distinct_ids_def init_scene_def)
  from r obtain mid where "read_lines init_scene 1 mid = (None, sc, rest)"
    by (auto simp: read_scene_def Let_def split: option.splits if_splits)
  from read_lines_distinct_ids [OF this i] show ?thesis .
qed

subsection \<open>Every other failure prints a message\<close>

lemma error_message_nonempty: "e \<noteq> NoFirstLine \<Longrightarrow> error_message e \<noteq> []"
  by (cases e) simp_all

lemma parse_building_line_message: "parse_building_line line k = Inl e \<Longrightarrow> e \<noteq> NoFirstLine"
  by (auto simp: parse_building_line_def Let_def simp del: sscanf.simps
      split: prod.splits if_splits)

lemma parse_antenna_line_message: "parse_antenna_line line k = Inl e \<Longrightarrow> e \<noteq> NoFirstLine"
  by (auto simp: parse_antenna_line_def Let_def simp del: sscanf.simps
      split: prod.splits if_splits)

lemma process_line_message: "process_line sc line k = (Some e, sc') \<Longrightarrow> e \<noteq> NoFirstLine"
  by (auto simp: process_line_def process_building_def process_antenna_def add_building_def
      add_antenna_def Let_def simp del: sscanf.simps
      split: prod.splits if_splits sum.splits option.splits
      dest: parse_building_line_message parse_antenna_line_message)

lemma read_lines_message: "read_lines sc k inp = (Some e, sc', rest) \<Longrightarrow> e \<noteq> NoFirstLine"
proof (induction sc k inp rule: read_lines.induct)
  case (1 scene line_num inp)
  show ?case
  proof (cases "fgets MAX_LINE_LENGTH inp")
    case None
    with "1.prems" show ?thesis by (auto simp: read_lines_eof)
  next
    case (Some p)
    obtain buf mid where p: "p = (buf, mid)" by (cases p)
    let ?line = "strip_newline (c_str buf)"
    show ?thesis
    proof (cases "?line = ''end scene''")
      case True
      with Some p "1.prems" show ?thesis by (simp add: read_lines_end)
    next
      case False
      obtain r sc1 where pl: "process_line scene ?line (line_num + 1) = (r, sc1)"
        by (cases "process_line scene ?line (line_num + 1)")
      show ?thesis
      proof (cases r)
        case None
        with Some p False pl have "read_lines scene line_num inp = read_lines sc1 (line_num + 1) mid"
          by (simp add: read_lines_step)
        with "1.prems" have rl: "read_lines sc1 (line_num + 1) mid = (Some e, sc', rest)" by simp
        from False have ne: "\<not> is_end_scene ?line" by (simp add: is_end_scene_def strcmp_eq_0_iff)
        from "1.IH" [OF Some p [symmetric] refl ne pl [symmetric] None rl] show ?thesis .
      next
        case (Some e')
        with \<open>fgets MAX_LINE_LENGTH inp = Some p\<close> p False pl "1.prems" have "e = e'"
          by (simp add: read_lines_fail)
        with pl Some show ?thesis by (auto dest: process_line_message)
      qed
    qed
  qed
qed

text \<open>The empty stream is the only one on which the reader fails without a message.\<close>

lemma read_scene_silent_iff:
  "(\<exists>e. fst (read_scene sc inp) = Some e \<and> error_message e = []) \<longleftrightarrow> inp = []"
proof
  assume "\<exists>e. fst (read_scene sc inp) = Some e \<and> error_message e = []"
  then obtain e where e: "fst (read_scene sc inp) = Some e" "error_message e = []" by blast
  then have n: "e = NoFirstLine" using error_message_nonempty by blast
  show "inp = []"
  proof (rule ccontr)
    assume "inp \<noteq> []"
    then obtain buf mid where f: "fgets MAX_LINE_LENGTH inp = Some (buf, mid)"
      by (auto simp: fgets_def Let_def)
    show False
    proof (cases "is_begin_scene (strip_newline (c_str buf))")
      case True
      with f have r: "read_scene sc inp = read_lines sc 1 mid" by (simp add: read_scene_def)
      obtain sc' rest where "read_lines sc 1 mid = (Some e, sc', rest)"
        using e(1) r by (cases "read_lines sc 1 mid") auto
      from read_lines_message [OF this] n show False by simp
    next
      case False
      with f e(1) n show False by (simp add: read_scene_def)
    qed
  qed
next
  assume "inp = []"
  then show "\<exists>e. fst (read_scene sc inp) = Some e \<and> error_message e = []"
    by (simp add: read_scene_def fgets_def)
qed

end
